theory Spec2Isabelle
  imports Complex_Main
begin

section \<open>JavaScript values and strings\<close>

text \<open>
  The tag dropdown works on dynamically typed data: sub-block values, declared block
  outputs, tool outputs and response formats are all \<^verbatim>\<open>any\<close> or
  \<^verbatim>\<open>Record<string, any>\<close> in the TypeScript source. They are modelled by a
  datatype of JSON-like values extended with \<^verbatim>\<open>undefined\<close>. An object is the
  list of its own enumerable string-keyed properties in the order in which
  \<^verbatim>\<open>Object.entries\<close> enumerates them; its keys are pairwise distinct in JavaScript
  and property lookup takes the first entry of a key.

  A string is a list of characters, each standing for one UTF-16 code unit below 256, so
  that \<open>length\<close> and every index count what JavaScript's \<^verbatim>\<open>length\<close>,
  \<^verbatim>\<open>slice\<close> and \<^verbatim>\<open>indexOf\<close> count.
\<close>

datatype jsnum = NaN | Fin rat

datatype jsval =
    JUndefined
  | JNull
  | JBool bool
  | JNum jsnum
  | JStr string
  | JArr "jsval list"
  | JObj "(string \<times> jsval) list"

text \<open>Truthiness, as tested by \<^verbatim>\<open>!v\<close>, \<^verbatim>\<open>v && ...\<close> and \<^verbatim>\<open>v || ...\<close>.\<close>

fun truthy :: "jsval \<Rightarrow> bool" where
  "truthy JUndefined = False"
| "truthy JNull = False"
| "truthy (JBool b) = b"
| "truthy (JNum n) = (n \<noteq> NaN \<and> n \<noteq> Fin 0)"
| "truthy (JStr s) = (s \<noteq> [])"
| "truthy (JArr xs) = True"
| "truthy (JObj kvs) = True"

text \<open>\<^verbatim>\<open>v === null || v === undefined\<close>, the test behind \<^verbatim>\<open>?.\<close> and \<^verbatim>\<open>??\<close>.\<close>

fun nullish :: "jsval \<Rightarrow> bool" where
  "nullish JUndefined = True"
| "nullish JNull = True"
| "nullish v = False"

text \<open>\<^verbatim>\<open>typeof v === 'object' && v !== null\<close>: arrays are objects too.\<close>

fun isObject :: "jsval \<Rightarrow> bool" where
  "isObject (JObj kvs) = True"
| "isObject (JArr xs) = True"
| "isObject v = False"

text \<open>\<^verbatim>\<open>typeof v === 'string'\<close>, giving the string.\<close>

fun asString :: "jsval \<Rightarrow> string option" where
  "asString (JStr s) = Some s"
| "asString v = None"

text \<open>Decimal digits of an array index, as \<^verbatim>\<open>Object.entries\<close> names the elements of an array.\<close>

fun showNat :: "nat \<Rightarrow> string" where
  "showNat n = (if n < 10 then [char_of (48 + n)]
                else showNat (n div 10) @ [char_of (48 + n mod 10)])"

declare showNat.simps [simp del]

text \<open>
  \<^verbatim>\<open>Object.entries(v)\<close> for a value that is not \<^verbatim>\<open>null\<close> or
  \<^verbatim>\<open>undefined\<close> (there the built-in raises a TypeError; every call below is on a
  value already known to be truthy or an object, or is guarded at the call site).
\<close>

fun entries :: "jsval \<Rightarrow> (string \<times> jsval) list" where
  "entries (JObj kvs) = kvs"
| "entries (JArr xs) = zip (map showNat [0..<length xs]) xs"
| "entries (JStr s) = zip (map showNat [0..<length s]) (map (\<lambda>c. JStr [c]) s)"
| "entries v = []"

text \<open>
  Property read \<^verbatim>\<open>v.k\<close> or \<^verbatim>\<open>v?.k\<close> for the fixed property names the
  source reads (\<^verbatim>\<open>type\<close>, \<^verbatim>\<open>items\<close>, \<^verbatim>\<open>properties\<close>,
  \<^verbatim>\<open>value\<close>, \<^verbatim>\<open>name\<close>, \<^verbatim>\<open>variableName\<close>): none of them exists on
  an array, a string, a number or a boolean, so only an object can hold one. On
  \<^verbatim>\<open>null\<close> and \<^verbatim>\<open>undefined\<close> the plain read raises; where the source does not
  use \<^verbatim>\<open>?.\<close> the caller checks \<open>nullish\<close> first.
\<close>

fun getProp :: "jsval \<Rightarrow> string \<Rightarrow> jsval" where
  "getProp (JObj kvs) k = (case map_of kvs k of Some v \<Rightarrow> v | None \<Rightarrow> JUndefined)"
| "getProp v k = JUndefined"

text \<open>\<^verbatim>\<open>'type' in value && typeof value.type === 'string'\<close>, giving the type.\<close>

fun typeField :: "jsval \<Rightarrow> string option" where
  "typeField (JObj kvs) = (case map_of kvs ''type'' of Some (JStr t) \<Rightarrow> Some t | _ \<Rightarrow> None)"
| "typeField v = None"

subsection \<open>String built-ins\<close>

text \<open>
  White space as \<^verbatim>\<open>String.prototype.trim\<close> and the regular expression class
  \<^verbatim>\<open>\s\<close> know it, among the code units below 256: tab, line feed, vertical tab, form
  feed, carriage return, space and no-break space.
\<close>

definition isWhiteSpace :: "char \<Rightarrow> bool" where
  "isWhiteSpace c = (of_char c \<in> {9, 10, 11, 12, 13, 32, 160 :: nat})"

definition trim :: "string \<Rightarrow> string" where
  "trim s = rev (dropWhile isWhiteSpace (rev (dropWhile isWhiteSpace s)))"

text \<open>\<^verbatim>\<open>s.replace(/\s+/g, '')\<close>.\<close>

definition stripWhiteSpace :: "string \<Rightarrow> string" where
  "stripWhiteSpace s = filter (\<lambda>c. \<not> isWhiteSpace c) s"

definition lowerChar :: "char \<Rightarrow> char" where
  "lowerChar c = (let n = (of_char c :: nat) in
     if (65 \<le> n \<and> n \<le> 90) \<or> (192 \<le> n \<and> n \<le> 222 \<and> n \<noteq> 215) then char_of (n + 32) else c)"

definition toLowerCase :: "string \<Rightarrow> string" where
  "toLowerCase s = map lowerChar s"

definition startsWith :: "string \<Rightarrow> string \<Rightarrow> bool" where
  "startsWith s p = (take (length p) s = p)"

text \<open>\<^verbatim>\<open>s.includes(sub)\<close>: \<open>sub\<close> occurs in \<open>s\<close> as a contiguous substring.\<close>

fun includesStr :: "string \<Rightarrow> string \<Rightarrow> bool" where
  "includesStr [] sub = (sub = [])"
| "includesStr (c # cs) sub = (startsWith (c # cs) sub \<or> includesStr cs sub)"

text \<open>\<^verbatim>\<open>s.indexOf(c)\<close> and \<^verbatim>\<open>s.lastIndexOf(c)\<close> for a single character; \<open>-1\<close> when absent.\<close>

fun indexOf :: "string \<Rightarrow> char \<Rightarrow> int" where
  "indexOf [] c = -1"
| "indexOf (x # xs) c =
     (if x = c then 0 else (let i = indexOf xs c in if i = -1 then -1 else i + 1))"

definition lastIndexOf :: "string \<Rightarrow> char \<Rightarrow> int" where
  "lastIndexOf s c =
     (let i = indexOf (rev s) c in if i = -1 then -1 else int (length s) - 1 - i)"

text \<open>
  \<^verbatim>\<open>s.slice(start, end)\<close> and \<^verbatim>\<open>s.slice(start)\<close> on integer arguments: a negative
  index counts from the end, and both indices are clamped to the string.
\<close>

definition relIndex :: "nat \<Rightarrow> int \<Rightarrow> nat" where
  "relIndex len i = (if i < 0 then nat (max 0 (int len + i)) else min (nat i) len)"

definition slice :: "string \<Rightarrow> int \<Rightarrow> int \<Rightarrow> string" where
  "slice s start end' =
     (let from = relIndex (length s) start; to = relIndex (length s) end'
      in take (to - from) (drop from s))"

definition sliceFrom :: "string \<Rightarrow> int \<Rightarrow> string" where
  "sliceFrom s start = drop (relIndex (length s) start) s"

text \<open>\<^verbatim>\<open>s.split(c)\<close> for a single character: never empty, the empty string splits to the list of one empty string.\<close>

fun split :: "string \<Rightarrow> char \<Rightarrow> string list" where
  "split [] c = [] # []"
| "split (x # xs) c =
     (if x = c then [] # split xs c
      else (case split xs c of p # ps \<Rightarrow> (x # p) # ps | [] \<Rightarrow> [x] # []))"

text \<open>\<^verbatim>\<open>parts.join(sep)\<close>.\<close>

fun join :: "string list \<Rightarrow> string \<Rightarrow> string" where
  "join [] sep = []"
| "join [p] sep = p"
| "join (p # q # ps) sep = p @ sep @ join (q # ps) sep"

section \<open>The dropdown trigger\<close>

text \<open>
  \<^verbatim>\<open>checkTagTrigger(text, cursorPosition)\<close> returns \<^verbatim>\<open>{ show }\<close>; the model returns
  the \<^verbatim>\<open>show\<close> field.
\<close>

definition checkTagTrigger :: "string \<Rightarrow> int \<Rightarrow> bool" where
  "checkTagTrigger text cursorPosition =
     (if cursorPosition \<ge> 1 then
        (let textBeforeCursor = slice text 0 cursorPosition;
             lastOpenBracket = lastIndexOf textBeforeCursor CHR ''<'';
             lastCloseBracket = lastIndexOf textBeforeCursor CHR ''>''
         in if lastOpenBracket \<noteq> -1 \<and> (lastCloseBracket = -1 \<or> lastCloseBracket < lastOpenBracket)
            then True else False)
      else False)"

section \<open>Response formats\<close>

text \<open>
  \<^verbatim>\<open>parseResponseFormatSafely(responseFormatValue, blockId)\<close> of
  \<^verbatim>\<open>use-block-connections.ts\<close>. A result \<open>None\<close> stands for an exception leaving the
  function, \<open>Some v\<close> for the return of \<open>v\<close>. The built-in \<^verbatim>\<open>JSON.parse\<close> is a
  parameter: \<open>jsonParse s = None\<close> when it raises a SyntaxError on \<open>s\<close>. The
  \<^verbatim>\<open>try\<close>/\<^verbatim>\<open>catch\<close> around the call is the \<open>case\<close> on its result.
\<close>

definition parseResponseFormatSafely ::
  "(string \<Rightarrow> jsval option) \<Rightarrow> jsval \<Rightarrow> string \<Rightarrow> jsval option" where
  "parseResponseFormatSafely jsonParse responseFormatValue blockId =
     (if \<not> truthy responseFormatValue then Some JUndefined
      else if isObject responseFormatValue then Some responseFormatValue
      else (case asString responseFormatValue of
              Some s \<Rightarrow>
                (let trimmedValue = trim s in
                 if startsWith trimmedValue ''<'' \<and> includesStr trimmedValue ''>''
                 then Some (JStr trimmedValue)
                 else if trimmedValue = [] then Some JUndefined
                 else (case jsonParse trimmedValue of
                         Some parsed \<Rightarrow> Some parsed
                       | None \<Rightarrow> Some JUndefined))
            | None \<Rightarrow> Some JUndefined))"

section \<open>Flattening declared outputs\<close>

text \<open>\<^verbatim>\<open>prefix ? `${prefix}.${key}` : key\<close>\<close>

definition joinPath :: "string \<Rightarrow> string \<Rightarrow> string" where
  "joinPath prefix key = (if prefix \<noteq> [] then prefix @ ''.'' @ key else key)"

lemma size_map_of: "map_of kvs k = Some v \<Longrightarrow> size v < size (JObj kvs)"
  by (induction kvs) (auto split: if_splits)

lemma size_getProp_le: "size (getProp v k) \<le> size v"
  by (cases v) (auto split: option.splits dest: size_map_of less_imp_le)

lemma size_mem_obj: "(k, v) \<in> set kvs \<Longrightarrow> size v < size (JObj kvs)"
  by (induction kvs) auto

lemma size_mem_arr: "v \<in> set xs \<Longrightarrow> size v < size (JArr xs)"
  by (induction xs) auto

lemma size_entries:
  assumes "(k, v) \<in> set (entries d)" and "isObject v"
  shows "size v < size d"
proof (cases d)
  case (JObj kvs)
  with assms have "(k, v) \<in> set kvs" by simp
  then have "size v < size (JObj kvs)" by (rule size_mem_obj)
  with JObj show ?thesis by simp
next
  case (JArr xs)
  with assms have "v \<in> set xs" by (auto dest: set_zip_rightD)
  then have "size v < size (JArr xs)" by (rule size_mem_arr)
  with JArr show ?thesis by simp
next
  case (JStr s)
  with assms show ?thesis by (auto dest!: set_zip_rightD)
qed (use assms in simp_all)

text \<open>
  \<^verbatim>\<open>generateOutputPaths(outputs, prefix)\<close>: the paths offered as tags. An object with a
  string \<^verbatim>\<open>type\<close> is a leaf here, whatever it nests.
\<close>

function generateOutputPaths :: "jsval \<Rightarrow> string \<Rightarrow> string list" where
  "generateOutputPaths outputs prefix =
     concat (map (\<lambda>(key, value).
        let currentPath = joinPath prefix key in
        (case asString value of
           Some t \<Rightarrow> [currentPath]
         | None \<Rightarrow>
             if isObject value then
               (case typeField value of
                  Some ty \<Rightarrow> [currentPath]
                | None \<Rightarrow> generateOutputPaths value currentPath)
             else [currentPath])) (entries outputs))"
  by pat_completeness auto
termination
proof (relation "measure (\<lambda>(v, p). size v)", goal_cases)
  case 1
  show ?case by simp
next
  case (2 outputs prefix kv key val)
  then have "size val < size outputs" by (metis size_entries)
  then show ?case by simp
qed

declare generateOutputPaths.simps [simp del]

text \<open>
  \<^verbatim>\<open>generateOutputPathsWithTypes(outputs, prefix)\<close>: the path-to-type table. Each entry
  \<^verbatim>\<open>{ path, type }\<close> is a pair.
\<close>

function generateOutputPathsWithTypes :: "jsval \<Rightarrow> string \<Rightarrow> (string \<times> string) list" where
  "generateOutputPathsWithTypes outputs prefix =
     concat (map (\<lambda>(key, value).
        let currentPath = joinPath prefix key in
        (case asString value of
           Some t \<Rightarrow> [(currentPath, t)]
         | None \<Rightarrow>
             if isObject value then
               (case typeField value of
                  Some ty \<Rightarrow>
                    if ty = ''array'' \<and> truthy (getProp (getProp value ''items'') ''properties'') then
                      (currentPath, ''array'') #
                      generateOutputPathsWithTypes
                        (getProp (getProp value ''items'') ''properties'') currentPath
                    else if ty = ''object'' \<and> truthy (getProp value ''properties'') then
                      (currentPath, ''object'') #
                      generateOutputPathsWithTypes (getProp value ''properties'') currentPath
                    else [(currentPath, ty)]
                | None \<Rightarrow> generateOutputPathsWithTypes value currentPath)
             else [(currentPath, ''any'')])) (entries outputs))"
  by pat_completeness auto
termination
proof (relation "measure (\<lambda>(v, p). size v)", goal_cases)
  case 1
  show ?case by simp
next
  case (2 outputs prefix kv key val)
  then have "size val < size outputs" by (metis size_entries)
  then show ?case by simp
next
  case (3 outputs prefix kv key val)
  then have "size val < size outputs" by (metis size_entries)
  moreover have "size (getProp (getProp val ''items'') ''properties'') \<le> size val"
    by (meson size_getProp_le order_trans)
  ultimately show ?case by simp
next
  case (4 outputs prefix kv key val)
  then have "size val < size outputs" by (metis size_entries)
  moreover have "size (getProp val ''properties'') \<le> size val"
    by (rule size_getProp_le)
  ultimately show ?case by simp
qed

declare generateOutputPathsWithTypes.simps [simp del]

subsection \<open>The flattening, read declaratively\<close>

text \<open>
  The specification describes the deriver by the shape of each declared output: a bare
  string is a leaf of that type; a \<^verbatim>\<open>{type, ...}\<close> entry is an object shape when
  its type is \<^verbatim>\<open>object\<close> and it has \<^verbatim>\<open>properties\<close>, an array shape when its
  type is \<^verbatim>\<open>array\<close> and it has \<^verbatim>\<open>items.properties\<close>, and a leaf of its type
  otherwise; an object without a string \<^verbatim>\<open>type\<close> is a legacy nested declaration;
  anything else is unrecognised and typed \<^verbatim>\<open>any\<close>. \<open>flattened d pre (path, ty)\<close>
  says that the declaration \<open>d\<close>, reached under the path \<open>pre\<close>, owes the table the
  entry \<open>(path, ty)\<close>: one entry for each leaf, one for each object or array shape
  itself, and the entries of everything nested below. A legacy nested declaration
  contributes its descendants only.
\<close>

datatype shape = LeafType string | ObjectShape jsval | ArrayShape jsval | LegacyNested | Unrecognized

definition shapeOf :: "jsval \<Rightarrow> shape" where
  "shapeOf v =
     (case asString v of
        Some t \<Rightarrow> LeafType t
      | None \<Rightarrow>
          if \<not> isObject v then Unrecognized
          else (case typeField v of
                  None \<Rightarrow> LegacyNested
                | Some ty \<Rightarrow>
                    if ty = ''array'' \<and> truthy (getProp (getProp v ''items'') ''properties'')
                    then ArrayShape (getProp (getProp v ''items'') ''properties'')
                    else if ty = ''object'' \<and> truthy (getProp v ''properties'')
                    then ObjectShape (getProp v ''properties'')
                    else LeafType ty))"

inductive flattened :: "jsval \<Rightarrow> string \<Rightarrow> string \<times> string \<Rightarrow> bool" where
  leaf: "(k, v) \<in> set (entries d) \<Longrightarrow> shapeOf v = LeafType t
           \<Longrightarrow> flattened d pre (joinPath pre k, t)"
| unrecognized: "(k, v) \<in> set (entries d) \<Longrightarrow> shapeOf v = Unrecognized
           \<Longrightarrow> flattened d pre (joinPath pre k, ''any'')"
| object_node: "(k, v) \<in> set (entries d) \<Longrightarrow> shapeOf v = ObjectShape p
           \<Longrightarrow> flattened d pre (joinPath pre k, ''object'')"
| array_node: "(k, v) \<in> set (entries d) \<Longrightarrow> shapeOf v = ArrayShape p
           \<Longrightarrow> flattened d pre (joinPath pre k, ''array'')"
| object_desc: "(k, v) \<in> set (entries d) \<Longrightarrow> shapeOf v = ObjectShape p
           \<Longrightarrow> flattened p (joinPath pre k) e \<Longrightarrow> flattened d pre e"
| array_desc: "(k, v) \<in> set (entries d) \<Longrightarrow> shapeOf v = ArrayShape p
           \<Longrightarrow> flattened p (joinPath pre k) e \<Longrightarrow> flattened d pre e"
| legacy_desc: "(k, v) \<in> set (entries d) \<Longrightarrow> shapeOf v = LegacyNested
           \<Longrightarrow> flattened v (joinPath pre k) e \<Longrightarrow> flattened d pre e"

text \<open>The declaration of the specification's example.\<close>

definition declaredResult :: jsval where
  "declaredResult =
     JObj [(''result'', JObj [(''type'', JStr ''object''),
                              (''properties'', JObj [(''a'', JStr ''string''),
                                                     (''b'', JObj [(''type'', JStr ''number'')])])])]"

section \<open>Workflow state and collaborators\<close>

text \<open>
  The workflow store as the dropdown reads it. A \<^verbatim>\<open>Record<string, T>\<close> is an
  association list in enumeration order with pairwise distinct keys, read with
  \<open>map_of\<close>, which finds the own entries of the store's records.
\<close>

record BlockState =
  block_id :: string
  block_type :: string
  block_name :: string
  triggerMode :: bool
  subBlocks :: "(string \<times> jsval) list"

record Edge =
  source :: string
  target :: string

record Loop =
  loop_nodes :: "string list"
  loopType :: string

record Parallel =
  parallel_nodes :: "string list"
  parallelType :: string

record Variable =
  var_id :: string
  var_name :: string
  var_type :: string

record Workflow =
  blocks :: "(string \<times> BlockState) list"
  edges :: "Edge list"
  loops :: "(string \<times> Loop) list"
  parallels :: "(string \<times> Parallel) list"
  workflowSubBlockValues :: "(string \<times> (string \<times> jsval) list) list"
  workflowVariables :: "Variable list"

text \<open>
  \<open>loopType\<close> and \<open>parallelType\<close> are \<open>''''\<close> when the field is unset, so that
  \<^verbatim>\<open>loop.loopType || 'for'\<close> is a test for the empty string; \<open>block_name\<close>
  likewise. \<open>workflowSubBlockValues\<close> and \<open>workflowVariables\<close> are those of the active
  workflow, empty when there is none.

  A block configuration of the registry: the declared \<open>outputs\<close> (\<open>JUndefined\<close> when
  absent), whether \<^verbatim>\<open>triggers?.enabled\<close> is set, and the function
  \<^verbatim>\<open>tools?.config?.tool\<close> when there is one. Applied to the operation it gives
  \<open>None\<close> when it raises, and otherwise the tool identifier, \<open>''''\<close> standing for
  every falsy result.
\<close>

record BlockConfig =
  category :: string
  outputs :: jsval
  triggersEnabled :: bool
  toolSelector :: "(jsval \<Rightarrow> string option) option"

record ToolConfig =
  tool_outputs :: jsval

text \<open>
  The functions the file imports and this repository does not hold: the block and tool
  registries, the dynamic output helpers of \<^verbatim>\<open>@/lib/workflows/block-outputs\<close>, the
  sub-block store's \<^verbatim>\<open>getValue\<close>, the response-format helpers of
  \<^verbatim>\<open>@/lib/response-format\<close> (\<open>extractFieldsFromSchema\<close> gives the field names) and
  the hook \<^verbatim>\<open>useAccessibleReferencePrefixes\<close> (\<open>None\<close> for \<^verbatim>\<open>undefined\<close>). They
  are parameters of everything below.
\<close>

record Env =
  getBlock :: "string \<Rightarrow> BlockConfig option"
  getTool :: "string \<Rightarrow> ToolConfig option"
  getBlockOutputPaths :: "string \<Rightarrow> jsval \<Rightarrow> bool \<Rightarrow> string list"
  getBlockOutputType :: "string \<Rightarrow> string \<Rightarrow> jsval \<Rightarrow> bool \<Rightarrow> jsval"
  getSubBlockValue :: "string \<Rightarrow> string \<Rightarrow> jsval"
  parseResponseFormat :: "jsval \<Rightarrow> string \<Rightarrow> jsval"
  extractFieldsFromSchema :: "jsval \<Rightarrow> string list"
  useAccessibleReferencePrefixes :: "string \<Rightarrow> string list option"

record BlockTagGroup =
  blockName :: string
  blockId :: string
  blockType :: string
  tags :: "string list"
  distance :: nat

subsection \<open>Small helpers of the dropdown\<close>

definition normalizeBlockName :: "string \<Rightarrow> string" where
  "normalizeBlockName name = toLowerCase (stripWhiteSpace name)"

definition normalizeVariableName :: "string \<Rightarrow> string" where
  "normalizeVariableName variableName = stripWhiteSpace variableName"

definition ensureRootTag :: "string list \<Rightarrow> string \<Rightarrow> string list" where
  "ensureRootTag ts rootTag =
     (if rootTag = [] then ts
      else if rootTag \<in> set ts then ts
      else rootTag # ts)"

text \<open>\<^verbatim>\<open>obj[k] = v\<close> on an object: an existing key keeps its place, a new one goes last.\<close>

fun setProp :: "(string \<times> jsval) list \<Rightarrow> string \<Rightarrow> jsval \<Rightarrow> (string \<times> jsval) list" where
  "setProp [] k v = [(k, v)]"
| "setProp ((k', v') # kvs) k v = (if k' = k then (k, v) # kvs else (k', v') # setProp kvs k v)"

text \<open>\<^verbatim>\<open>{ ...(x || {}) }\<close>: the own enumerable properties of \<open>x\<close>, none when \<open>x\<close> is falsy.\<close>

definition spreadOrEmpty :: "jsval \<Rightarrow> (string \<times> jsval) list" where
  "spreadOrEmpty x = (if truthy x then entries x else [])"

definition getMergedSubBlocks :: "Workflow \<Rightarrow> string \<Rightarrow> jsval" where
  "getMergedSubBlocks w targetBlockId =
     (let base = (case map_of (blocks w) targetBlockId of Some b \<Rightarrow> subBlocks b | None \<Rightarrow> []);
          live = (case map_of (workflowSubBlockValues w) targetBlockId of Some l \<Rightarrow> l | None \<Rightarrow> [])
      in JObj (foldl (\<lambda>merged (subId, liveVal).
                 setProp merged subId
                   (JObj (setProp (spreadOrEmpty (getProp (JObj base) subId)) ''value'' liveVal)))
               base live))"

text \<open>\<^verbatim>\<open>a ?? b\<close>\<close>

definition orElse :: "jsval \<Rightarrow> jsval \<Rightarrow> jsval" where
  "orElse a b = (if nullish a then b else a)"

subsection \<open>Tool outputs\<close>

text \<open>
  Both functions wrap their body in \<^verbatim>\<open>try\<close>/\<^verbatim>\<open>catch\<close>: an exception of the tool
  selector gives the fallback result.
\<close>

definition generateToolOutputPaths :: "Env \<Rightarrow> BlockConfig \<Rightarrow> jsval \<Rightarrow> string list" where
  "generateToolOutputPaths env blockConfig operation =
     (case toolSelector blockConfig of
        None \<Rightarrow> []
      | Some tool \<Rightarrow>
          (case tool operation of
             None \<Rightarrow> []
           | Some toolId \<Rightarrow>
               if toolId = [] then []
               else (case getTool env toolId of
                       None \<Rightarrow> []
                     | Some toolConfig \<Rightarrow>
                         if \<not> truthy (tool_outputs toolConfig) then []
                         else generateOutputPaths (tool_outputs toolConfig) [])))"

definition getToolOutputType :: "Env \<Rightarrow> BlockConfig \<Rightarrow> jsval \<Rightarrow> string \<Rightarrow> string" where
  "getToolOutputType env blockConfig operation path =
     (case toolSelector blockConfig of
        None \<Rightarrow> ''any''
      | Some tool \<Rightarrow>
          (case tool operation of
             None \<Rightarrow> ''any''
           | Some toolId \<Rightarrow>
               if toolId = [] then ''any''
               else (case getTool env toolId of
                       None \<Rightarrow> ''any''
                     | Some toolConfig \<Rightarrow>
                         if \<not> truthy (tool_outputs toolConfig) then ''any''
                         else (case find (\<lambda>p. fst p = path)
                                      (generateOutputPathsWithTypes (tool_outputs toolConfig) []) of
                                 None \<Rightarrow> ''any''
                               | Some matchingPath \<Rightarrow>
                                   if snd matchingPath = [] then ''any'' else snd matchingPath))))"

subsection \<open>The type of an output path\<close>

text \<open>
  \<^verbatim>\<open>inputFormatValue.find((f) => f.name === outputPath)\<close>: \<open>None\<close> when the callback
  raises on a \<^verbatim>\<open>null\<close> or \<^verbatim>\<open>undefined\<close> element met before a match,
  \<open>Some JUndefined\<close> when no element matches.
\<close>

fun findField :: "jsval list \<Rightarrow> string \<Rightarrow> jsval option" where
  "findField [] outputPath = Some JUndefined"
| "findField (f # fs) outputPath =
     (if nullish f then None
      else if getProp f ''name'' = JStr outputPath then Some f
      else findField fs outputPath)"

text \<open>
  \<^verbatim>\<open>getOutputTypeForPath(block, blockConfig, blockId, outputPath, mergedSubBlocksOverride)\<close>.
  \<open>None\<close> stands for a TypeError leaving the function. The result is a value: the type
  of a start-block field comes from the input format untyped. In chat mode a path that
  names a member of \<^verbatim>\<open>Object.prototype\<close> yields that member in the source, which is
  no string; the model gives \<open>''any''\<close> there, and no caller tells the two apart.
\<close>

definition chatModeType :: "string \<Rightarrow> string" where
  "chatModeType outputPath =
     (if outputPath = ''input'' then ''string''
      else if outputPath = ''conversationId'' then ''string''
      else if outputPath = ''files'' then ''files''
      else ''any'')"

definition getOutputTypeForPath ::
  "Env \<Rightarrow> Workflow \<Rightarrow> BlockState option \<Rightarrow> BlockConfig option \<Rightarrow> string \<Rightarrow> string \<Rightarrow> jsval
     \<Rightarrow> jsval option" where
  "getOutputTypeForPath env w block blockConfig blockId' outputPath mergedSubBlocksOverride =
     (if (case block of Some b \<Rightarrow> triggerMode b | None \<Rightarrow> False) \<and>
         (case blockConfig of Some c \<Rightarrow> triggersEnabled c | None \<Rightarrow> False)
      then Some (getBlockOutputType env (block_type (the block)) outputPath mergedSubBlocksOverride True)
      else if (case block of Some b \<Rightarrow> block_type b = ''starter'' | None \<Rightarrow> False) then
        (let startWorkflowValue =
               orElse (getProp (getProp mergedSubBlocksOverride ''startWorkflow'') ''value'')
                      (getSubBlockValue env blockId' ''startWorkflow'')
         in if startWorkflowValue = JStr ''chat'' then Some (JStr (chatModeType outputPath))
            else
              (let inputFormatValue =
                     orElse (getProp (getProp mergedSubBlocksOverride ''inputFormat'') ''value'')
                            (getSubBlockValue env blockId' ''inputFormat'')
               in case inputFormatValue of
                    JArr formatFields \<Rightarrow>
                      (case findField formatFields outputPath of
                         None \<Rightarrow> None
                       | Some field \<Rightarrow>
                           if truthy (getProp field ''type'') then Some (getProp field ''type'')
                           else Some (JStr ''any''))
                  | _ \<Rightarrow> Some (JStr ''any'')))
      else if (case blockConfig of Some c \<Rightarrow> category c = ''triggers'' | None \<Rightarrow> False) then
        (case block of
           None \<Rightarrow> None
         | Some b \<Rightarrow>
             (let subBlocks' =
                    orElse mergedSubBlocksOverride
                      (JObj (case map_of (blocks w) blockId' of
                               Some blockState \<Rightarrow> subBlocks blockState | None \<Rightarrow> []))
              in Some (getBlockOutputType env (block_type b) outputPath subBlocks' False)))
      else
        (let operationValue = getSubBlockValue env blockId' ''operation''
         in case blockConfig of
              Some c \<Rightarrow>
                if truthy operationValue
                then Some (JStr (getToolOutputType env c operationValue outputPath))
                else Some (JStr ''any'')
            | None \<Rightarrow> Some (JStr ''any'')))"

section \<open>Inserting the selected tag\<close>

definition fileProperties :: "string list" where
  "fileProperties = [''url'', ''name'', ''size'', ''type'', ''key'', ''uploadedAt'', ''expiresAt'']"

text \<open>The character class of \<^verbatim>\<open>/^[a-zA-Z0-9._]*$/\<close>; without the \<^verbatim>\<open>m\<close> flag the
  anchors are the two ends of the string.\<close>

definition isReferenceChar :: "char \<Rightarrow> bool" where
  "isReferenceChar c = (let n = (of_char c :: nat) in
     (97 \<le> n \<and> n \<le> 122) \<or> (65 \<le> n \<and> n \<le> 90) \<or> (48 \<le> n \<and> n \<le> 57) \<or> c = CHR ''.'' \<or> c = CHR ''_'')"

definition isPartialReference :: "string \<Rightarrow> bool" where
  "isPartialReference textBetween = list_all isReferenceChar textBetween"

text \<open>
  The type of the parent field of a tag selected from a group, as
  \<^verbatim>\<open>handleTagSelect\<close> resolves it: the field is the segment before the last one,
  looked up for the group's block with its merged sub-blocks. \<open>None\<close> when the lookup
  raises.
\<close>

definition parentFieldType :: "Env \<Rightarrow> Workflow \<Rightarrow> BlockTagGroup \<Rightarrow> string list \<Rightarrow> jsval option" where
  "parentFieldType env w blockGroup parts =
     (let fieldName = parts ! (length parts - 2);
          block = map_of (blocks w) (blockId blockGroup);
          blockConfig = (case block of Some b \<Rightarrow> getBlock env (block_type b) | None \<Rightarrow> None);
          mergedSubBlocks = getMergedSubBlocks w (blockId blockGroup)
      in getOutputTypeForPath env w block blockConfig (blockId blockGroup) fieldName
           mergedSubBlocks)"

text \<open>\<^verbatim>\<open>`${parts.slice(0, -1).join('.')}[0].${parts[parts.length - 1]}`\<close>\<close>

definition withFirstIndex :: "string list \<Rightarrow> string" where
  "withFirstIndex parts = join (butlast parts) ''.'' @ ''[0].'' @ last parts"

text \<open>
  The first half of \<^verbatim>\<open>handleTagSelect(tag, blockGroup)\<close>: the tag that is going to be
  inserted, \<^verbatim>\<open>processedTag\<close>. \<open>None\<close> when resolving the field type raises.
\<close>

definition processedTagOf :: "Env \<Rightarrow> Workflow \<Rightarrow> string \<Rightarrow> BlockTagGroup option \<Rightarrow> string option" where
  "processedTagOf env w tag blockGroup =
     (let parts = split tag CHR ''.'' in
      case (if length parts \<ge> 2 \<and> last parts \<in> set fileProperties then
              (case blockGroup of
                 None \<Rightarrow> Some tag
               | Some g \<Rightarrow>
                   (case parentFieldType env w g parts of
                      None \<Rightarrow> None
                    | Some fieldType \<Rightarrow>
                        if fieldType = JStr ''files'' then Some (withFirstIndex parts)
                        else Some tag))
            else Some tag) of
        None \<Rightarrow> None
      | Some processedTag \<Rightarrow>
          if startsWith tag ''variable.'' then
            (if \<exists>v \<in> set (workflowVariables w). stripWhiteSpace (var_name v) = drop 9 tag
             then Some tag else Some processedTag)
          else
            (case blockGroup of
               Some g \<Rightarrow>
                 if blockType g = ''loop'' \<or> blockType g = ''parallel'' then
                   (if CHR ''.'' \<notin> set tag \<and> tag \<in> set [''index'', ''currentItem'', ''items'']
                    then Some (blockType g @ ''.'' @ tag)
                    else Some tag)
                 else Some processedTag
             | None \<Rightarrow> Some processedTag))"

text \<open>
  \<^verbatim>\<open>handleTagSelect\<close> on the live input value and cursor (the active element's when
  it has a selection, the component's \<^verbatim>\<open>inputValue\<close> and \<^verbatim>\<open>cursorPosition\<close>
  otherwise). \<open>NoOp\<close> is the early \<^verbatim>\<open>return\<close>, \<open>Selected v\<close> the call
  \<^verbatim>\<open>onSelect(v)\<close>, \<open>Raised\<close> an exception leaving the handler.
\<close>

datatype select_result = Raised | NoOp | Selected string

definition handleTagSelect ::
  "Env \<Rightarrow> Workflow \<Rightarrow> string \<Rightarrow> int \<Rightarrow> string \<Rightarrow> BlockTagGroup option \<Rightarrow> select_result" where
  "handleTagSelect env w liveValue liveCursor tag blockGroup =
     (let textBeforeCursor = slice liveValue 0 liveCursor;
          textAfterCursor = sliceFrom liveValue liveCursor;
          lastOpenBracket = lastIndexOf textBeforeCursor CHR ''<''
      in if lastOpenBracket = -1 then NoOp
         else
           (case processedTagOf env w tag blockGroup of
              None \<Rightarrow> Raised
            | Some processedTag \<Rightarrow>
                (let nextCloseBracket = indexOf textAfterCursor CHR ''>'';
                     remainingTextAfterCursor =
                       (if nextCloseBracket \<noteq> -1 \<and>
                           isPartialReference (slice textAfterCursor 0 nextCloseBracket)
                        then sliceFrom textAfterCursor (nextCloseBracket + 1)
                        else textAfterCursor)
                 in Selected (slice textBeforeCursor 0 lastOpenBracket @ ''<'' @ processedTag
                              @ ''>'' @ remainingTextAfterCursor))))"

section \<open>Distances from the start block\<close>

text \<open>
  \<^verbatim>\<open>adjList\<close>, \<^verbatim>\<open>blockDistances\<close> and, further down, \<^verbatim>\<open>groupedTags\<close> are plain
  objects created by \<^verbatim>\<open>{}\<close> and used as maps from strings. Reading a key that is no
  own property of such an object, but names a member of \<^verbatim>\<open>Object.prototype\<close>, gives
  that member: a function, or for \<^verbatim>\<open>__proto__\<close> the prototype object itself. These
  are the names.
\<close>

definition objectPrototypeKeys :: "string list" where
  "objectPrototypeKeys =
     [''constructor'', ''__defineGetter__'', ''__defineSetter__'', ''hasOwnProperty'',
      ''__lookupGetter__'', ''__lookupSetter__'', ''isPrototypeOf'', ''propertyIsEnumerable'',
      ''toString'', ''valueOf'', ''__proto__'', ''toLocaleString'']"

text \<open>
  One edge of the loop that builds the adjacency list:
  \<^verbatim>\<open>if (!adjList[edge.source]) adjList[edge.source] = []; adjList[edge.source].push(edge.target)\<close>.
  For a source that names a member of \<^verbatim>\<open>Object.prototype\<close> the test finds the
  inherited member, which is truthy, nothing is assigned, and calling its \<^verbatim>\<open>push\<close>
  raises a \<^verbatim>\<open>TypeError\<close>: \<open>None\<close>.
\<close>

definition pushEdge :: "(string \<rightharpoonup> string list) option \<Rightarrow> Edge \<Rightarrow> (string \<rightharpoonup> string list) option" where
  "pushEdge acc edge =
     (case acc of
        None \<Rightarrow> None
      | Some adjList \<Rightarrow>
          (case adjList (source edge) of
             Some ts \<Rightarrow> Some (adjList(source edge \<mapsto> ts @ [target edge]))
           | None \<Rightarrow>
               if source edge \<in> set objectPrototypeKeys then None
               else Some (adjList(source edge \<mapsto> [target edge]))))"

definition buildAdjList :: "Edge list \<Rightarrow> (string \<rightharpoonup> string list) option" where
  "buildAdjList es = foldl pushEdge (Some Map.empty) es"

text \<open>The three variables of the \<^verbatim>\<open>while\<close> loop.\<close>

record bfs_state =
  queue :: "(string \<times> nat) list"
  visited :: "string set"
  blockDistances :: "string \<rightharpoonup> nat"

text \<open>
  \<^verbatim>\<open>adjList[currentNodeId] || []\<close>, as the \<^verbatim>\<open>for ... of\<close> loop takes it: the own
  entry, the empty list for a key that is absent, and \<open>None\<close> for a key that is absent
  but names a member of \<^verbatim>\<open>Object.prototype\<close>, since that member is truthy and not
  iterable, and the loop over it raises a \<^verbatim>\<open>TypeError\<close>.
\<close>

definition outgoingNodeIds :: "(string \<rightharpoonup> string list) \<Rightarrow> string \<Rightarrow> string list option" where
  "outgoingNodeIds adjList currentNodeId =
     (case adjList currentNodeId of
        Some ts \<Rightarrow> Some ts
      | None \<Rightarrow> if currentNodeId \<in> set objectPrototypeKeys then None else Some [])"

text \<open>
  One iteration of the loop body (the identity on an empty queue); \<open>None\<close> when it
  raises.
\<close>

definition bfsStep :: "(string \<rightharpoonup> string list) \<Rightarrow> bfs_state \<Rightarrow> bfs_state option" where
  "bfsStep adjList s =
     (case queue s of
        [] \<Rightarrow> Some s
      | (currentNodeId, d) # rest \<Rightarrow>
          if currentNodeId \<in> visited s then Some (s\<lparr>queue := rest\<rparr>)
          else
            (case outgoingNodeIds adjList currentNodeId of
               None \<Rightarrow> None
             | Some ts \<Rightarrow>
                 Some (s\<lparr>queue := rest @ map (\<lambda>targetId. (targetId, d + 1)) ts,
                         visited := insert currentNodeId (visited s),
                         blockDistances := (blockDistances s)(currentNodeId \<mapsto> d)\<rparr>)))"

text \<open>The targets of the edges that leave a block, in the order of the edges.\<close>

definition successors :: "Edge list \<Rightarrow> string \<Rightarrow> string list" where
  "successors es n = map target (filter (\<lambda>e. source e = n) es)"

lemma buildAdjList_snoc: "buildAdjList (es @ [e]) = pushEdge (buildAdjList es) e"
  by (simp add: buildAdjList_def)

lemma buildAdjList_lookup:
  "buildAdjList es = Some adjList \<Longrightarrow>
     adjList n = (if successors es n = [] then None else Some (successors es n))"
proof (induction es arbitrary: adjList rule: rev_induct)
  case Nil
  then show ?case by (auto simp: buildAdjList_def successors_def)
next
  case (snoc e es)
  from snoc.prems obtain adj0 where a0: "buildAdjList es = Some adj0"
    by (auto simp: buildAdjList_snoc pushEdge_def split: option.splits)
  note IH = snoc.IH[OF a0]
  from snoc.prems a0 have p: "pushEdge (Some adj0) e = Some adjList"
    by (simp add: buildAdjList_snoc)
  show ?case
  proof (cases "source e = n")
    case True
    with p IH show ?thesis
      by (auto simp: pushEdge_def successors_def split: option.splits if_splits)
  next
    case False
    with p have "adjList n = adj0 n"
      by (auto simp: pushEdge_def split: option.splits if_splits)
    with False IH show ?thesis by (simp add: successors_def)
  qed
qed

lemma outgoingNodeIds_targets:
  assumes "buildAdjList es = Some adjList" and "outgoingNodeIds adjList n = Some ts"
  shows "set ts \<subseteq> target ` set es"
  using assms buildAdjList_lookup[OF assms(1), of n]
  by (auto simp: outgoingNodeIds_def successors_def split: option.splits if_splits)

text \<open>
  The \<^verbatim>\<open>while (queue.length > 0)\<close> loop over the adjacency list of the edges. It ends
  on every edge list and every state, with the final state or with an exception: a node
  is expanded at most once, and every node ever queued is the target of an edge or was in
  the queue at the start.
\<close>

function bfsLoop :: "Edge list \<Rightarrow> bfs_state \<Rightarrow> bfs_state option" where
  "bfsLoop es s =
     (if queue s = [] then Some s
      else
        (case buildAdjList es of
           None \<Rightarrow> None
         | Some adjList \<Rightarrow>
             (case bfsStep adjList s of
                None \<Rightarrow> None
              | Some s' \<Rightarrow> bfsLoop es s')))"
  by pat_completeness auto
termination
proof (relation "measures [\<lambda>(es, s). card ((target ` set es \<union> fst ` set (queue s)) - visited s),
                           \<lambda>(es, s). length (queue s)]", goal_cases)
  case 1
  show ?case by simp
next
  case (2 es s adjList s')
  then obtain n d rest where q: "queue s = (n, d) # rest"
    by (cases "queue s") auto
  let ?U = "\<lambda>s. (target ` set es \<union> fst ` set (queue s)) - visited s"
  show ?case
  proof (cases "n \<in> visited s")
    case True
    with q 2 have s': "s' = s\<lparr>queue := rest\<rparr>"
      by (simp add: bfsStep_def)
    have "?U (s\<lparr>queue := rest\<rparr>) \<subseteq> ?U s" using q by auto
    moreover have "finite (?U s)" by simp
    ultimately have "card (?U (s\<lparr>queue := rest\<rparr>)) \<le> card (?U s)"
      by (rule card_mono[rotated])
    with s' q show ?thesis by auto
  next
    case False
    from False q 2 obtain ts where o: "outgoingNodeIds adjList n = Some ts"
      and s': "s' = s\<lparr>queue := rest @ map (\<lambda>targetId. (targetId, d + 1)) ts,
                 visited := insert n (visited s),
                 blockDistances := (blockDistances s)(n \<mapsto> d)\<rparr>"
      by (auto simp: bfsStep_def split: option.splits)
    have ts: "set ts \<subseteq> target ` set es"
      using outgoingNodeIds_targets[OF 2(2) o] .
    have q': "fst ` set (queue s') = fst ` set rest \<union> set ts"
      by (simp add: s' image_Un image_image)
    have v': "visited s' = insert n (visited s)"
      by (simp add: s')
    have qs: "fst ` set (queue s) = insert n (fst ` set rest)"
      using q by simp
    define A where "A = ?U s'"
    define B where "B = ?U s"
    have sub: "A \<subseteq> B - {n}"
      unfolding A_def B_def q' v' qs using ts by blast
    have nin: "n \<in> B" unfolding B_def qs using False by blast
    from sub nin have "A \<subset> B" by blast
    moreover have "finite B" by (simp add: B_def)
    ultimately have "card A < card B" by (rule psubset_card_mono[rotated])
    then have "card (?U s') < card (?U s)" by (simp only: A_def B_def)
    then show ?thesis by simp
  qed
qed

declare bfsLoop.simps [simp del]

text \<open>
  \<^verbatim>\<open>blockDistances\<close> as the dropdown computes it: empty without a start block,
  otherwise what the loop leaves from the queue that holds the start block at distance 0.
  \<open>None\<close> when building the adjacency list or the loop raises.
\<close>

definition bfsInit :: "string \<Rightarrow> bfs_state" where
  "bfsInit rootId = \<lparr>queue = [(rootId, 0)], visited = {}, blockDistances = Map.empty\<rparr>"

definition distancesFrom :: "Edge list \<Rightarrow> string \<Rightarrow> (string \<rightharpoonup> nat) option" where
  "distancesFrom es rootId =
     (case buildAdjList es of
        None \<Rightarrow> None
      | Some adjList \<Rightarrow> map_option blockDistances (bfsLoop es (bfsInit rootId)))"

definition computeBlockDistances :: "Workflow \<Rightarrow> (string \<rightharpoonup> nat) option" where
  "computeBlockDistances w =
     (case find (\<lambda>block. block_type block = ''starter'') (map snd (blocks w)) of
        None \<Rightarrow> Some Map.empty
      | Some starterBlock \<Rightarrow> distancesFrom (edges w) (block_id starterBlock))"

section \<open>The tags offered to a block\<close>

text \<open>\<^verbatim>\<open>paths.map((path) => `${normalizedBlockName}.${path}`)\<close>\<close>

definition prefixed :: "string \<Rightarrow> string list \<Rightarrow> string list" where
  "prefixed normalizedBlockName paths = map (\<lambda>path. normalizedBlockName @ ''.'' @ path) paths"

text \<open>\<^verbatim>\<open>block.name || block.type\<close>\<close>

definition nameOrType :: "BlockState \<Rightarrow> string" where
  "nameOrType block = (if block_name block \<noteq> [] then block_name block else block_type block)"

text \<open>\<^verbatim>\<open>outputs || {}\<close>\<close>

definition orEmptyObject :: "jsval \<Rightarrow> jsval" where
  "orEmptyObject v = (if truthy v then v else JObj [])"

text \<open>
  The three \<^verbatim>\<open>filter(...).map(...)\<close> chains over untyped sub-block values. \<open>None\<close>
  stands for the TypeError of a method call on a value that has no such method
  (\<^verbatim>\<open>toLowerCase\<close> or \<^verbatim>\<open>trim\<close> on a non-string) or of a property read on
  \<^verbatim>\<open>null\<close> or \<^verbatim>\<open>undefined\<close>.

  Evaluator metrics: \<^verbatim>\<open>filter((metric) => metric?.name)\<close>, then
  \<^verbatim>\<open>`${normalizedBlockName}.${metric.name.toLowerCase()}`\<close>.
\<close>

fun metricTags :: "string \<Rightarrow> jsval list \<Rightarrow> string list option" where
  "metricTags nn [] = Some []"
| "metricTags nn (metric # ms) =
     (if truthy (getProp metric ''name'') then
        (case asString (getProp metric ''name'') of
           None \<Rightarrow> None
         | Some name \<Rightarrow> map_option ((#) (nn @ ''.'' @ toLowerCase name)) (metricTags nn ms))
      else metricTags nn ms)"

text \<open>
  Variable assignments: \<^verbatim>\<open>filter((assignment) => assignment?.variableName?.trim())\<close>, then
  \<^verbatim>\<open>`${normalizedBlockName}.${assignment.variableName.trim()}`\<close>.
\<close>

fun assignmentTags :: "string \<Rightarrow> jsval list \<Rightarrow> string list option" where
  "assignmentTags nn [] = Some []"
| "assignmentTags nn (assignment # as) =
     (if nullish (getProp assignment ''variableName'') then assignmentTags nn as
      else (case asString (getProp assignment ''variableName'') of
              None \<Rightarrow> None
            | Some variableName \<Rightarrow>
                if trim variableName \<noteq> []
                then map_option ((#) (nn @ ''.'' @ trim variableName)) (assignmentTags nn as)
                else assignmentTags nn as))"

text \<open>
  Input format fields: \<^verbatim>\<open>filter((field) => field.name && field.name.trim() !== '')\<close>, then
  \<^verbatim>\<open>`${normalizedBlockName}.${field.name}`\<close>.
\<close>

fun inputFormatTags :: "string \<Rightarrow> jsval list \<Rightarrow> string list option" where
  "inputFormatTags nn [] = Some []"
| "inputFormatTags nn (field # fs) =
     (if nullish field then None
      else if \<not> truthy (getProp field ''name'') then inputFormatTags nn fs
      else (case asString (getProp field ''name'') of
              None \<Rightarrow> None
            | Some name \<Rightarrow>
                if trim name \<noteq> []
                then map_option ((#) (nn @ ''.'' @ name)) (inputFormatTags nn fs)
                else inputFormatTags nn fs))"

text \<open>\<^verbatim>\<open>v && Array.isArray(v) && v.length > 0\<close>, giving the elements.\<close>

fun nonEmptyArray :: "jsval \<Rightarrow> jsval list option" where
  "nonEmptyArray (JArr xs) = (if xs = [] then None else Some xs)"
| "nonEmptyArray v = None"

text \<open>
  \<^verbatim>\<open>generateOutputPaths(blockConfig.outputs)\<close> where the source passes the outputs
  unguarded: \<^verbatim>\<open>Object.entries\<close> raises on \<^verbatim>\<open>null\<close> and \<^verbatim>\<open>undefined\<close>.
\<close>

definition unguardedOutputPaths :: "jsval \<Rightarrow> string list option" where
  "unguardedOutputPaths outs = (if nullish outs then None else Some (generateOutputPaths outs []))"

text \<open>The tags of evaluator and variables blocks, the same in both modes of the dropdown.\<close>

definition evaluatorTags :: "Env \<Rightarrow> BlockConfig \<Rightarrow> string \<Rightarrow> string \<Rightarrow> string list option" where
  "evaluatorTags env blockConfig sourceId nn =
     (case nonEmptyArray (getSubBlockValue env sourceId ''metrics'') of
        Some metricsValue \<Rightarrow> metricTags nn metricsValue
      | None \<Rightarrow> map_option (prefixed nn) (unguardedOutputPaths (outputs blockConfig)))"

definition variablesBlockTags :: "Env \<Rightarrow> string \<Rightarrow> string \<Rightarrow> string list option" where
  "variablesBlockTags env sourceId nn =
     (case nonEmptyArray (getSubBlockValue env sourceId ''variables'') of
        Some variablesValue \<Rightarrow> assignmentTags nn variablesValue
      | None \<Rightarrow> Some [nn])"

definition responseFormatTags :: "Env \<Rightarrow> BlockConfig \<Rightarrow> jsval \<Rightarrow> string \<Rightarrow> string list" where
  "responseFormatTags env blockConfig responseFormat nn =
     (let schemaFields = extractFieldsFromSchema env responseFormat
      in if schemaFields \<noteq> [] then prefixed nn schemaFields
         else prefixed nn (generateOutputPaths (orEmptyObject (outputs blockConfig)) []))"

text \<open>The selected trigger's outputs of a block in trigger mode, the static ones when it has none.\<close>

definition triggerModeTags :: "Env \<Rightarrow> BlockState \<Rightarrow> BlockConfig \<Rightarrow> jsval \<Rightarrow> string \<Rightarrow> string list" where
  "triggerModeTags env block blockConfig mergedSubBlocks nn =
     (let dynamicOutputs = getBlockOutputPaths env (block_type block) mergedSubBlocks True
      in if dynamicOutputs \<noteq> [] then prefixed nn dynamicOutputs
         else prefixed nn (generateOutputPaths (orEmptyObject (outputs blockConfig)) []))"

text \<open>The outputs of the tool bound to the operation, the static ones when it has none.\<close>

definition operationTags :: "Env \<Rightarrow> BlockConfig \<Rightarrow> string \<Rightarrow> jsval \<Rightarrow> string \<Rightarrow> string list" where
  "operationTags env blockConfig sourceId mergedSubBlocks nn =
     (let operationValue = orElse (getProp (getProp mergedSubBlocks ''operation'') ''value'')
                                  (getSubBlockValue env sourceId ''operation'');
          toolOutputPaths = (if truthy operationValue
                             then generateToolOutputPaths env blockConfig operationValue else [])
      in if toolOutputPaths \<noteq> [] then prefixed nn toolOutputPaths
         else prefixed nn (generateOutputPaths (orEmptyObject (outputs blockConfig)) []))"

text \<open>\<^verbatim>\<open>!blockConfig.outputs || Object.keys(blockConfig.outputs).length === 0\<close>\<close>

definition noOutputs :: "BlockConfig \<Rightarrow> bool" where
  "noOutputs blockConfig = (\<not> truthy (outputs blockConfig) \<or> entries (outputs blockConfig) = [])"

subsection \<open>The root tag\<close>

text \<open>
  What both modes do to the tags of a block that has a configuration:
  \<^verbatim>\<open>ensureRootTag\<close>, then the filter unless the block is a generic webhook.
\<close>

definition applyRootTagPolicy :: "string \<Rightarrow> string \<Rightarrow> string list \<Rightarrow> string list" where
  "applyRootTagPolicy blockType' nn blockTags =
     (let withRoot = ensureRootTag blockTags nn;
          shouldShowRootTag = (blockType' = ''generic_webhook'')
      in if \<not> shouldShowRootTag then filter (\<lambda>tag. tag \<noteq> nn) withRoot else withRoot)"

subsection \<open>One accessible block\<close>

text \<open>
  The \<^verbatim>\<open>if\<close> chain of the loop over the accessible blocks, for a block that has a
  configuration.
\<close>

definition accessibleBlockTags ::
  "Env \<Rightarrow> Workflow \<Rightarrow> string \<Rightarrow> BlockState \<Rightarrow> BlockConfig \<Rightarrow> string list option" where
  "accessibleBlockTags env w accessibleBlockId accessibleBlock blockConfig =
     (let nn = normalizeBlockName (nameOrType accessibleBlock);
          mergedSubBlocks = getMergedSubBlocks w accessibleBlockId;
          responseFormatValue = getProp (getProp mergedSubBlocks ''responseFormat'') ''value'';
          responseFormat = parseResponseFormat env responseFormatValue accessibleBlockId
      in if category blockConfig = ''triggers'' \<or> block_type accessibleBlock = ''starter'' then
           (let dynamicOutputs =
                  getBlockOutputPaths env (block_type accessibleBlock) mergedSubBlocks False
            in if dynamicOutputs \<noteq> [] then Some (prefixed nn dynamicOutputs)
               else if block_type accessibleBlock = ''starter'' then
                 (if getProp (getProp mergedSubBlocks ''startWorkflow'') ''value'' = JStr ''chat''
                  then Some [nn @ ''.input'', nn @ ''.conversationId'', nn @ ''.files'']
                  else Some [nn])
               else if block_type accessibleBlock = ''generic_webhook'' then Some [nn]
               else Some [])
         else if block_type accessibleBlock = ''evaluator'' then
           evaluatorTags env blockConfig accessibleBlockId nn
         else if block_type accessibleBlock = ''variables'' then
           variablesBlockTags env accessibleBlockId nn
         else if truthy responseFormat then
           Some (responseFormatTags env blockConfig responseFormat nn)
         else if noOutputs blockConfig then Some [nn]
         else if triggerMode accessibleBlock \<and> triggersEnabled blockConfig then
           Some (triggerModeTags env accessibleBlock blockConfig mergedSubBlocks nn)
         else Some (operationTags env blockConfig accessibleBlockId mergedSubBlocks nn))"

text \<open>
  \<^verbatim>\<open>blockDistances[id] || 0\<close> on the own entries of \<^verbatim>\<open>blockDistances\<close>. For an
  identifier that is no own key and names a member of \<^verbatim>\<open>Object.prototype\<close> the
  source reads that member, which is no number: \<open>inheritedDistance\<close> tells, and the
  sort below accounts for it.
\<close>

definition distanceOrZero :: "(string \<rightharpoonup> nat) \<Rightarrow> string \<Rightarrow> nat" where
  "distanceOrZero dists id' = (case dists id' of Some d \<Rightarrow> d | None \<Rightarrow> 0)"

definition inheritedDistance :: "(string \<rightharpoonup> nat) \<Rightarrow> string \<Rightarrow> bool" where
  "inheritedDistance dists id' \<longleftrightarrow> dists id' = None \<and> id' \<in> set objectPrototypeKeys"

text \<open>
  One iteration of \<^verbatim>\<open>for (const accessibleBlockId of accessibleBlockIds)\<close>: the groups
  it pushes (none on \<^verbatim>\<open>continue\<close>), or \<open>None\<close> when it raises.
\<close>

definition accessibleBlockGroups ::
  "Env \<Rightarrow> Workflow \<Rightarrow> string \<Rightarrow> (string \<rightharpoonup> nat) \<Rightarrow> string option \<Rightarrow> string option \<Rightarrow> string
     \<Rightarrow> BlockTagGroup list option" where
  "accessibleBlockGroups env w blockId' dists containingLoopBlockId containingParallelBlockId
       accessibleBlockId =
     (case map_of (blocks w) accessibleBlockId of
        None \<Rightarrow> Some []
      | Some accessibleBlock \<Rightarrow>
          if accessibleBlockId = blockId' then Some []
          else
            (case getBlock env (block_type accessibleBlock) of
               None \<Rightarrow>
                 if block_type accessibleBlock = ''loop'' \<or> block_type accessibleBlock = ''parallel''
                 then
                   (if Some accessibleBlockId = containingLoopBlockId \<or>
                       Some accessibleBlockId = containingParallelBlockId
                    then Some []
                    else
                      (let blockName' = nameOrType accessibleBlock;
                           nn = normalizeBlockName blockName';
                           outputPaths = generateOutputPaths (JObj [(''results'', JStr ''array'')]) [];
                           blockTags = ensureRootTag (prefixed nn outputPaths) nn
                       in Some [\<lparr>blockName = blockName', blockId = accessibleBlockId,
                                 blockType = block_type accessibleBlock, tags = blockTags,
                                 distance = distanceOrZero dists accessibleBlockId\<rparr>]))
                 else Some []
             | Some blockConfig \<Rightarrow>
                 (case accessibleBlockTags env w accessibleBlockId accessibleBlock blockConfig of
                    None \<Rightarrow> None
                  | Some blockTags \<Rightarrow>
                      (let blockName' = nameOrType accessibleBlock;
                           nn = normalizeBlockName blockName'
                       in Some [\<lparr>blockName = blockName', blockId = accessibleBlockId,
                                 blockType = block_type accessibleBlock,
                                 tags = applyRootTagPolicy (block_type accessibleBlock) nn blockTags,
                                 distance = distanceOrZero dists accessibleBlockId\<rparr>]))))"

text \<open>The whole loop: the groups pushed to \<^verbatim>\<open>blockTagGroups\<close>, in the order of the pushes.\<close>

fun collectAccessibleGroups ::
  "Env \<Rightarrow> Workflow \<Rightarrow> string \<Rightarrow> (string \<rightharpoonup> nat) \<Rightarrow> string option \<Rightarrow> string option \<Rightarrow> string list
     \<Rightarrow> BlockTagGroup list option" where
  "collectAccessibleGroups env w blockId' dists cl cp [] = Some []"
| "collectAccessibleGroups env w blockId' dists cl cp (accessibleBlockId # ids) =
     (case accessibleBlockGroups env w blockId' dists cl cp accessibleBlockId of
        None \<Rightarrow> None
      | Some gs \<Rightarrow> map_option ((@) gs) (collectAccessibleGroups env w blockId' dists cl cp ids))"

text \<open>
  \<^verbatim>\<open>Array.from(new Set(rawAccessiblePrefixes))\<close>: each identifier once, in the order of
  first occurrence; nothing when the hook gives \<^verbatim>\<open>undefined\<close>.
\<close>

definition insertOnce :: "string list \<Rightarrow> string \<Rightarrow> string list" where
  "insertOnce acc x = (if x \<in> set acc then acc else acc @ [x])"

definition accessibleBlockIds :: "Env \<Rightarrow> string \<Rightarrow> string list" where
  "accessibleBlockIds env blockId' =
     (case useAccessibleReferencePrefixes env blockId' of
        None \<Rightarrow> []
      | Some rawAccessiblePrefixes \<Rightarrow> foldl insertOnce [] rawAccessiblePrefixes)"

subsection \<open>Loop and parallel context\<close>

text \<open>
  The contextual tags of a loop and of a parallel, from \<^verbatim>\<open>loop.loopType || 'for'\<close> and
  \<^verbatim>\<open>parallel.parallelType || 'count'\<close>.
\<close>

definition loopContextualTags :: "Loop \<Rightarrow> string list" where
  "loopContextualTags loop =
     (let loopType' = (if loopType loop \<noteq> [] then loopType loop else ''for'')
      in [''index'', ''currentIteration''] @
         (if loopType' = ''forEach'' then [''currentItem'', ''items''] else []))"

definition parallelContextualTags :: "Parallel \<Rightarrow> string list" where
  "parallelContextualTags parallel =
     (let parallelType' = (if parallelType parallel \<noteq> [] then parallelType parallel else ''count'')
      in [''index''] @
         (if parallelType' = ''collection'' then [''currentItem'', ''items''] else []))"

text \<open>\<^verbatim>\<open>containingLoopBlockId\<close> and \<^verbatim>\<open>loopBlockGroup\<close>.\<close>

definition loopContext :: "Workflow \<Rightarrow> string \<Rightarrow> string option \<times> BlockTagGroup option" where
  "loopContext w blockId' =
     (let isLoopBlock = (case map_of (blocks w) blockId' of
                           Some b \<Rightarrow> block_type b = ''loop'' | None \<Rightarrow> False);
          currentLoop = (if isLoopBlock then map_of (loops w) blockId' else None);
          containingLoop = find (\<lambda>(loopId, loop). blockId' \<in> set (loop_nodes loop)) (loops w)
      in case currentLoop of
           Some loop \<Rightarrow>
             (Some blockId',
              (case map_of (blocks w) blockId' of
                 Some loopBlock \<Rightarrow>
                   Some \<lparr>blockName = nameOrType loopBlock, blockId = blockId', blockType = ''loop'',
                         tags = loopContextualTags loop, distance = 0\<rparr>
               | None \<Rightarrow> None))
         | None \<Rightarrow>
             (case containingLoop of
                Some (loopId, loop) \<Rightarrow>
                  (Some loopId,
                   (case map_of (blocks w) loopId of
                      Some containingLoopBlock \<Rightarrow>
                        Some \<lparr>blockName = nameOrType containingLoopBlock, blockId = loopId,
                              blockType = ''loop'', tags = loopContextualTags loop, distance = 0\<rparr>
                    | None \<Rightarrow> None))
              | None \<Rightarrow> (None, None)))"

text \<open>\<^verbatim>\<open>containingParallelBlockId\<close> and \<^verbatim>\<open>parallelBlockGroup\<close>.\<close>

definition parallelContext :: "Workflow \<Rightarrow> string \<Rightarrow> string option \<times> BlockTagGroup option" where
  "parallelContext w blockId' =
     (case find (\<lambda>(parallelId, parallel). blockId' \<in> set (parallel_nodes parallel)) (parallels w) of
        Some (parallelId, parallel) \<Rightarrow>
          (Some parallelId,
           (case map_of (blocks w) parallelId of
              Some containingParallelBlock \<Rightarrow>
                Some \<lparr>blockName = nameOrType containingParallelBlock, blockId = parallelId,
                      blockType = ''parallel'', tags = parallelContextualTags parallel,
                      distance = 0\<rparr>
            | None \<Rightarrow> None))
      | None \<Rightarrow> (None, None))"

subsection \<open>Variables\<close>

definition variableTagsOf :: "Workflow \<Rightarrow> string list" where
  "variableTagsOf w =
     map (\<lambda>variable. ''variable.'' @ normalizeVariableName (var_name variable))
         (filter (\<lambda>variable. trim (var_name variable) \<noteq> []) (workflowVariables w))"

subsection \<open>A single source block\<close>

text \<open>
  The \<^verbatim>\<open>if\<close> chain of the branch \<^verbatim>\<open>if (activeSourceBlockId)\<close>, for a source block
  that has a configuration.
\<close>

definition sourceBlockTags ::
  "Env \<Rightarrow> Workflow \<Rightarrow> string \<Rightarrow> BlockState \<Rightarrow> BlockConfig \<Rightarrow> string list option" where
  "sourceBlockTags env w activeSourceBlockId sourceBlock blockConfig =
     (let nn = normalizeBlockName (nameOrType sourceBlock);
          mergedSubBlocks = getMergedSubBlocks w activeSourceBlockId;
          responseFormatValue = getProp (getProp mergedSubBlocks ''responseFormat'') ''value'';
          responseFormat = parseResponseFormat env responseFormatValue activeSourceBlockId
      in if block_type sourceBlock = ''evaluator'' then
           evaluatorTags env blockConfig activeSourceBlockId nn
         else if block_type sourceBlock = ''variables'' then
           variablesBlockTags env activeSourceBlockId nn
         else if truthy responseFormat then
           Some (responseFormatTags env blockConfig responseFormat nn)
         else if noOutputs blockConfig then
           (if block_type sourceBlock = ''starter'' then
              (if getProp (getProp mergedSubBlocks ''startWorkflow'') ''value'' = JStr ''chat''
               then Some [nn @ ''.input'', nn @ ''.conversationId'', nn @ ''.files'']
               else (case nonEmptyArray (getProp (getProp mergedSubBlocks ''inputFormat'') ''value'') of
                       Some inputFormatValue \<Rightarrow> inputFormatTags nn inputFormatValue
                     | None \<Rightarrow> Some [nn]))
            else if block_type sourceBlock = ''api_trigger'' \<or> block_type sourceBlock = ''input_trigger''
            then (case nonEmptyArray (getProp (getProp mergedSubBlocks ''inputFormat'') ''value'') of
                    Some inputFormatValue \<Rightarrow> inputFormatTags nn inputFormatValue
                  | None \<Rightarrow> Some [])
            else Some [nn])
         else if category blockConfig = ''triggers'' \<or> block_type sourceBlock = ''starter'' then
           (let dynamicOutputs = getBlockOutputPaths env (block_type sourceBlock) mergedSubBlocks False
            in if dynamicOutputs \<noteq> [] then Some (prefixed nn dynamicOutputs)
               else if block_type sourceBlock = ''starter'' then Some [nn]
               else if block_type sourceBlock = ''generic_webhook'' then Some [nn]
               else Some [])
         else if triggerMode sourceBlock \<and> triggersEnabled blockConfig then
           Some (triggerModeTags env sourceBlock blockConfig mergedSubBlocks nn)
         else Some (operationTags env blockConfig activeSourceBlockId mergedSubBlocks nn))"

text \<open>
  What the memo returns: \<^verbatim>\<open>tags\<close> and \<^verbatim>\<open>blockTagGroups\<close>. The third component,
  \<^verbatim>\<open>variableInfoMap\<close>, only feeds the rendering of variable rows and is left out.
\<close>

record TagData =
  allTags :: "string list"
  blockTagGroups :: "BlockTagGroup list"

definition emptyTagData :: TagData where
  "emptyTagData = \<lparr>allTags = [], blockTagGroups = []\<rparr>"

definition singleSourceTagData :: "Env \<Rightarrow> Workflow \<Rightarrow> string \<Rightarrow> TagData option" where
  "singleSourceTagData env w activeSourceBlockId =
     (case map_of (blocks w) activeSourceBlockId of
        None \<Rightarrow> Some emptyTagData
      | Some sourceBlock \<Rightarrow>
          (case getBlock env (block_type sourceBlock) of
             None \<Rightarrow>
               if block_type sourceBlock = ''loop'' \<or> block_type sourceBlock = ''parallel'' then
                 (let blockName' = nameOrType sourceBlock;
                      nn = normalizeBlockName blockName';
                      outputPaths = generateOutputPaths (JObj [(''results'', JStr ''array'')]) [];
                      blockTags = prefixed nn outputPaths
                  in Some \<lparr>allTags = blockTags,
                           blockTagGroups =
                             [\<lparr>blockName = blockName', blockId = activeSourceBlockId,
                               blockType = block_type sourceBlock, tags = blockTags,
                               distance = 0\<rparr>]\<rparr>)
               else Some emptyTagData
           | Some blockConfig \<Rightarrow>
               (case sourceBlockTags env w activeSourceBlockId sourceBlock blockConfig of
                  None \<Rightarrow> None
                | Some blockTags0 \<Rightarrow>
                    (let blockName' = nameOrType sourceBlock;
                         nn = normalizeBlockName blockName';
                         blockTags = applyRootTagPolicy (block_type sourceBlock) nn blockTags0
                     in Some \<lparr>allTags = blockTags,
                              blockTagGroups =
                                [\<lparr>blockName = blockName', blockId = activeSourceBlockId,
                                  blockType = block_type sourceBlock, tags = blockTags,
                                  distance = 0\<rparr>]\<rparr>))))"

subsection \<open>All accessible blocks\<close>

definition optionToList :: "'a option \<Rightarrow> 'a list" where
  "optionToList x = (case x of Some a \<Rightarrow> [a] | None \<Rightarrow> [])"

text \<open>
  \<^verbatim>\<open>blockTagGroups.sort((a, b) => a.distance - b.distance)\<close>: the sort of an array is
  stable, as is the insertion sort \<open>sort_key\<close>. A group whose distance is an inherited
  member of \<^verbatim>\<open>Object.prototype\<close> makes every difference with it \<^verbatim>\<open>NaN\<close>, which
  the sort takes for equal. As long as the other groups are all at one distance the
  comparison is still consistent and the stable sort leaves the order as it is; otherwise
  the language leaves the order to the implementation, and there is no result: \<open>None\<close>.
\<close>

definition sortByDistance :: "(string \<rightharpoonup> nat) \<Rightarrow> BlockTagGroup list \<Rightarrow> BlockTagGroup list option" where
  "sortByDistance dists groups =
     (let numeric = filter (\<lambda>g. \<not> inheritedDistance dists (blockId g)) groups in
      if length numeric = length groups then Some (sort_key distance groups)
      else if length (remdups (map distance numeric)) \<le> 1 then Some groups
      else None)"

definition accessibleTagData :: "Env \<Rightarrow> Workflow \<Rightarrow> string \<Rightarrow> TagData option" where
  "accessibleTagData env w blockId' =
     (if \<exists>block \<in> set (map snd (blocks w)). block_type block = [] then Some emptyTagData
      else
        (case computeBlockDistances w of
           None \<Rightarrow> None
         | Some dists \<Rightarrow>
             (let variableTags = variableTagsOf w;
                  (containingLoopBlockId, loopBlockGroup) = loopContext w blockId';
                  (containingParallelBlockId, parallelBlockGroup) = parallelContext w blockId'
              in case collectAccessibleGroups env w blockId' dists containingLoopBlockId
                        containingParallelBlockId (accessibleBlockIds env blockId') of
                   None \<Rightarrow> None
                 | Some groups \<Rightarrow>
                     (case sortByDistance dists groups of
                        None \<Rightarrow> None
                      | Some sortedGroups \<Rightarrow>
                          (let allBlockTags = concat (map tags groups);
                               finalBlockTagGroups =
                                 optionToList loopBlockGroup @ optionToList parallelBlockGroup
                                 @ sortedGroups;
                               contextualTags = concat (map tags (optionToList loopBlockGroup))
                                                @ concat (map tags (optionToList parallelBlockGroup))
                           in Some \<lparr>allTags = allBlockTags @ variableTags @ contextualTags,
                                    blockTagGroups = finalBlockTagGroups\<rparr>)))))"

text \<open>
  The memo: \<open>activeSourceBlockId\<close> is \<open>None\<close> for \<^verbatim>\<open>null\<close>, and the empty string is
  falsy as well. \<open>None\<close> as a result stands for an exception, or for an order of the
  groups that the language does not define.
\<close>

definition computeTagData :: "Env \<Rightarrow> Workflow \<Rightarrow> string \<Rightarrow> string option \<Rightarrow> TagData option" where
  "computeTagData env w blockId' activeSourceBlockId =
     (case activeSourceBlockId of
        Some sourceId \<Rightarrow>
          if sourceId \<noteq> [] then singleSourceTagData env w sourceId
          else accessibleTagData env w blockId'
      | None \<Rightarrow> accessibleTagData env w blockId')"

section \<open>Search, nesting and the flat order\<close>


definition matchesSearch :: "string \<Rightarrow> string \<Rightarrow> bool" where
  "matchesSearch searchTerm tag = (searchTerm = [] \<or> includesStr (toLowerCase tag) searchTerm)"

definition filteredTagsOf :: "TagData \<Rightarrow> string \<Rightarrow> string list" where
  "filteredTagsOf td searchTerm = filter (matchesSearch searchTerm) (allTags td)"

text \<open>The variable rows: every filtered tag that starts with \<^verbatim>\<open>variable.\<close>\<close>

definition variableTagsView :: "TagData \<Rightarrow> string \<Rightarrow> string list" where
  "variableTagsView td searchTerm =
     filter (\<lambda>tag. startsWith tag ''variable.'') (filteredTagsOf td searchTerm)"

definition filteredBlockTagGroups :: "TagData \<Rightarrow> string \<Rightarrow> BlockTagGroup list" where
  "filteredBlockTagGroups td searchTerm =
     filter (\<lambda>grp. tags grp \<noteq> [])
       (map (\<lambda>grp. grp\<lparr>tags := filter (matchesSearch searchTerm) (tags grp)\<rparr>)
            (blockTagGroups td))"

record TagEntry =
  entry_key :: string
  entry_display :: string
  entry_fullTag :: string

record NestedTag =
  nested_key :: string
  nested_display :: string
  nested_fullTag :: "string option"
  nested_children :: "TagEntry list option"

record NestedBlockTagGroup = BlockTagGroup +
  nestedTags :: "NestedTag list"

text \<open>
  \<^verbatim>\<open>if (!groupedTags[parent]) groupedTags[parent] = []; groupedTags[parent].push(entry)\<close>
  on the record of grouped tags, kept in the order of first insertion. For a parent
  segment that names a member of \<^verbatim>\<open>Object.prototype\<close> the test finds the inherited
  member, nothing is assigned, and calling its \<^verbatim>\<open>push\<close> raises a \<^verbatim>\<open>TypeError\<close>:
  \<open>None\<close>. Such a segment is never a key of the record.
\<close>

fun pushGrouped ::
  "(string \<times> TagEntry list) list \<Rightarrow> string \<Rightarrow> TagEntry \<Rightarrow> (string \<times> TagEntry list) list option" where
  "pushGrouped [] parent entry =
     (if parent \<in> set objectPrototypeKeys then None else Some [(parent, [entry])])"
| "pushGrouped ((k, es) # rest) parent entry =
     (if k = parent then Some ((k, es @ [entry]) # rest)
      else map_option ((#) (k, es)) (pushGrouped rest parent entry))"

text \<open>
  \<^verbatim>\<open>Object.entries\<close> enumerates the keys that are array indices (canonical decimal
  numerals up to \<open>2^32 - 2\<close>) first, in ascending numeric order, and then the other keys
  in the order of their insertion.
\<close>

definition digitsValue :: "string \<Rightarrow> nat" where
  "digitsValue s = foldl (\<lambda>n c. 10 * n + (of_char c - 48)) 0 s"

definition isArrayIndexKey :: "string \<Rightarrow> bool" where
  "isArrayIndexKey s =
     (s \<noteq> [] \<and> list_all (\<lambda>c. 48 \<le> (of_char c :: nat) \<and> (of_char c :: nat) \<le> 57) s \<and>
      (s = ''0'' \<or> hd s \<noteq> CHR ''0'') \<and> digitsValue s \<le> 4294967294)"

definition enumerationOrder :: "(string \<times> 'a) list \<Rightarrow> (string \<times> 'a) list" where
  "enumerationOrder kvs =
     sort_key (\<lambda>kv. digitsValue (fst kv)) (filter (\<lambda>kv. isArrayIndexKey (fst kv)) kvs)
     @ filter (\<lambda>kv. \<not> isArrayIndexKey (fst kv)) kvs"

text \<open>
  The body of \<^verbatim>\<open>group.tags.forEach\<close>, on the pair of \<^verbatim>\<open>groupedTags\<close> and
  \<^verbatim>\<open>directTags\<close>; \<open>None\<close> once it has raised.
\<close>

definition placeTag ::
  "BlockTagGroup \<Rightarrow> ((string \<times> TagEntry list) list \<times> TagEntry list) option \<Rightarrow> string
     \<Rightarrow> ((string \<times> TagEntry list) list \<times> TagEntry list) option" where
  "placeTag grp acc tag =
     (case acc of
        None \<Rightarrow> None
      | Some (groupedTags, directTags) \<Rightarrow>
          (let tagParts = split tag CHR ''.'' in
           if length tagParts \<ge> 3 then
             (let parent = tagParts ! 1;
                  child = join (drop 2 tagParts) ''.''
              in map_option (\<lambda>groupedTags'. (groupedTags', directTags))
                   (pushGrouped groupedTags parent
                      \<lparr>entry_key = parent @ ''.'' @ child, entry_display = child,
                       entry_fullTag = tag\<rparr>))
           else
             (let path = join (drop 1 tagParts) ''.'' in
              if (blockType grp = ''loop'' \<or> blockType grp = ''parallel'') \<and> length tagParts = 1
              then Some (groupedTags,
                         directTags @ [\<lparr>entry_key = tag, entry_display = tag, entry_fullTag = tag\<rparr>])
              else Some (groupedTags,
                         directTags @ [\<lparr>entry_key = (if path \<noteq> [] then path else blockName grp),
                                         entry_display = (if path \<noteq> [] then path else blockName grp),
                                         entry_fullTag = tag\<rparr>]))))"

definition nestedTagsOf :: "BlockTagGroup \<Rightarrow> NestedTag list option" where
  "nestedTagsOf grp =
     (case foldl (placeTag grp) (Some ([], [])) (tags grp) of
        None \<Rightarrow> None
      | Some (groupedTags, directTags) \<Rightarrow>
          Some (map (\<lambda>(parent, children).
                       \<lparr>nested_key = parent, nested_display = parent, nested_fullTag = None,
                        nested_children = Some children\<rparr>) (enumerationOrder groupedTags)
                @ map (\<lambda>directTag.
                       \<lparr>nested_key = entry_key directTag, nested_display = entry_display directTag,
                        nested_fullTag = Some (entry_fullTag directTag), nested_children = None\<rparr>)
                    directTags))"

text \<open>\<^verbatim>\<open>filteredBlockTagGroups.map(...)\<close>, group after group; \<open>None\<close> when one raises.\<close>

fun nestGroups :: "BlockTagGroup list \<Rightarrow> NestedBlockTagGroup list option" where
  "nestGroups [] = Some []"
| "nestGroups (grp # grps) =
     (case nestedTagsOf grp of
        None \<Rightarrow> None
      | Some nested \<Rightarrow>
          map_option ((#) (BlockTagGroup.extend grp \<lparr>nestedTags = nested\<rparr>)) (nestGroups grps))"

definition nestedBlockTagGroups :: "TagData \<Rightarrow> string \<Rightarrow> NestedBlockTagGroup list option" where
  "nestedBlockTagGroups td searchTerm = nestGroups (filteredBlockTagGroups td searchTerm)"

text \<open>
  What one nested tag contributes to the flat order: the full tag of its first child when
  it has children, its own full tag otherwise, and nothing when that is empty.
\<close>

definition visualTagsOf :: "NestedTag \<Rightarrow> string list" where
  "visualTagsOf nestedTag =
     (case nested_children nestedTag of
        Some (firstChild # rest) \<Rightarrow>
          if entry_fullTag firstChild \<noteq> [] then [entry_fullTag firstChild] else []
      | _ \<Rightarrow>
          (case nested_fullTag nestedTag of
             Some fullTag \<Rightarrow> if fullTag \<noteq> [] then [fullTag] else []
           | None \<Rightarrow> []))"

definition groupVisualTags :: "NestedBlockTagGroup \<Rightarrow> string list" where
  "groupVisualTags grp = concat (map visualTagsOf (nestedTags grp))"

definition orderedTagsOf :: "TagData \<Rightarrow> string \<Rightarrow> string list option" where
  "orderedTagsOf td searchTerm =
     (case nestedBlockTagGroups td searchTerm of
        None \<Rightarrow> None
      | Some nestedGroups \<Rightarrow>
          Some (variableTagsView td searchTerm @ concat (map groupVisualTags nestedGroups)))"

section \<open>Reading the insertion contract\<close>

text \<open>
  The position right after the closing delimiter that an insertion writes: the opening
  delimiter goes where the last \<^verbatim>\<open><\<close> before the cursor was, the tag and the
  closing delimiter follow it.
\<close>

definition cursorAfterInsertion :: "string \<Rightarrow> string \<Rightarrow> int" where
  "cursorAfterInsertion textBeforeCursor processedTag =
     lastIndexOf textBeforeCursor CHR ''<'' + int (length processedTag) + 2"

text \<open>
  The nearest unterminated opening delimiter before the cursor, in the specification's
  words: the last \<^verbatim>\<open><\<close> of the text before the cursor, provided no \<^verbatim>\<open>>\<close>
  follows it there. When a \<^verbatim>\<open>>\<close> follows the last \<^verbatim>\<open><\<close>, it follows every
  earlier one as well, and no opening delimiter is unterminated.
\<close>

definition nearestUnterminatedOpen :: "string \<Rightarrow> nat option" where
  "nearestUnterminatedOpen textBeforeCursor =
     (let i = lastIndexOf textBeforeCursor CHR ''<'' in
      if i = -1 then None
      else if CHR ''>'' \<in> set (drop (nat i + 1) textBeforeCursor) then None
      else Some (nat i))"

section \<open>An example workflow\<close>

text \<open>
  The workflow \<open>starter -> A -> loop{B} -> C\<close> of the specification's scenario: the loop
  block \<open>loop1\<close> has the single member \<open>B\<close>, entered from the loop block, and \<open>C\<close>
  follows the loop. \<open>A\<close> is a mail block whose operation \<open>read\<close> is bound to a tool
  with a \<open>files\<close>-typed output \<open>attachments\<close>; \<open>B\<close> and \<open>C\<close> are function blocks.
  The registry knows no configuration for loop blocks.
\<close>

definition scenarioWorkflow :: "string \<Rightarrow> Workflow" where
  "scenarioWorkflow lt =
     \<lparr>blocks =
        [(''starter'', \<lparr>block_id = ''starter'', block_type = ''starter'', block_name = ''Start'',
                        triggerMode = False, subBlocks = []\<rparr>),
         (''A'', \<lparr>block_id = ''A'', block_type = ''mail'', block_name = ''A'',
                  triggerMode = False, subBlocks = []\<rparr>),
         (''loop1'', \<lparr>block_id = ''loop1'', block_type = ''loop'', block_name = ''Loop'',
                      triggerMode = False, subBlocks = []\<rparr>),
         (''B'', \<lparr>block_id = ''B'', block_type = ''function'', block_name = ''B'',
                  triggerMode = False, subBlocks = []\<rparr>),
         (''C'', \<lparr>block_id = ''C'', block_type = ''function'', block_name = ''C'',
                  triggerMode = False, subBlocks = []\<rparr>)],
      edges = [\<lparr>source = ''starter'', target = ''A''\<rparr>, \<lparr>source = ''A'', target = ''loop1''\<rparr>,
               \<lparr>source = ''loop1'', target = ''B''\<rparr>, \<lparr>source = ''loop1'', target = ''C''\<rparr>],
      loops = [(''loop1'', \<lparr>loop_nodes = [''B''], loopType = lt\<rparr>)],
      parallels = [],
      workflowSubBlockValues = [],
      workflowVariables = [\<lparr>var_id = ''v1'', var_name = ''api key'', var_type = ''string''\<rparr>]\<rparr>"

definition scenarioRegistry :: "string \<Rightarrow> BlockConfig option" where
  "scenarioRegistry blockType' =
     (if blockType' = ''starter'' then
        Some \<lparr>category = ''blocks'', outputs = JObj [], triggersEnabled = False, toolSelector = None\<rparr>
      else if blockType' = ''mail'' then
        Some \<lparr>category = ''tools'', outputs = JObj [(''content'', JStr ''string'')],
              triggersEnabled = False,
              toolSelector = Some (\<lambda>operation. if operation = JStr ''read'' then Some ''mail_read''
                                                  else Some [])\<rparr>
      else if blockType' = ''generic_webhook'' then
        Some \<lparr>category = ''triggers'', outputs = JObj [], triggersEnabled = True, toolSelector = None\<rparr>
      else if blockType' = ''function'' then
        Some \<lparr>category = ''blocks'',
              outputs = JObj [(''result'', JStr ''json''), (''stdout'', JStr ''string'')],
              triggersEnabled = False, toolSelector = None\<rparr>
      else None)"

definition scenarioTools :: "string \<Rightarrow> ToolConfig option" where
  "scenarioTools toolId =
     (if toolId = ''mail_read'' then
        Some \<lparr>tool_outputs = JObj [(''content'', JStr ''string''),
                                   (''attachments'', JObj [(''type'', JStr ''files'')])]\<rparr>
      else None)"

text \<open>
  Modelled from the spec: the scope resolver behind the hook
  \<^verbatim>\<open>useAccessibleReferencePrefixes\<close> is not in the repository. Section 4.2 describes its
  result as the upstream blocks reachable by following edges backward from the block, all
  ancestors via any path, the block itself always removed. \<open>upstreamStep\<close> adds the
  sources of the edges into the blocks found so far; as many rounds as there are edges
  reach every ancestor.
\<close>

definition upstreamStep :: "Edge list \<Rightarrow> string list \<Rightarrow> string list" where
  "upstreamStep es found =
     foldl insertOnce found (map source (filter (\<lambda>e. target e \<in> set found) es))"

text \<open>
  Modelled from the spec: the accessible-prefix set of a block, which the absent hook
  computes; the ancestors of the block found by \<open>upstreamStep\<close>, without the block
  itself.
\<close>

definition accessiblePrefixesSpec :: "Edge list \<Rightarrow> string \<Rightarrow> string list" where
  "accessiblePrefixesSpec es b =
     filter (\<lambda>a. a \<noteq> b)
       ((upstreamStep es ^^ length es)
          (foldl insertOnce [] (map source (filter (\<lambda>e. target e = b) es))))"

definition scenarioEnv :: "string \<Rightarrow> Env" where
  "scenarioEnv lt =
     \<lparr>getBlock = scenarioRegistry,
      getTool = scenarioTools,
      getBlockOutputPaths = (\<lambda>blockType' subBlocks' triggerMode'.
                               if blockType' = ''starter'' then [''input''] else []),
      getBlockOutputType = (\<lambda>blockType' path subBlocks' triggerMode'. JStr ''any''),
      getSubBlockValue = (\<lambda>blockId' property.
                            if blockId' = ''A'' \<and> property = ''operation'' then JStr ''read''
                            else JNull),
      parseResponseFormat = (\<lambda>v blockId'. JUndefined),
      extractFieldsFromSchema = (\<lambda>v. []),
      useAccessibleReferencePrefixes =
        (\<lambda>blockId'. Some (accessiblePrefixesSpec (edges (scenarioWorkflow lt)) blockId'))\<rparr>"

text \<open>
  A second workflow, \<open>hook -> F\<close>: a generic webhook that declares no outputs, followed
  by a function block.
\<close>

definition webhookWorkflow :: Workflow where
  "webhookWorkflow =
     \<lparr>blocks =
        [(''hook'', \<lparr>block_id = ''hook'', block_type = ''generic_webhook'', block_name = ''Web Hook'',
                     triggerMode = False, subBlocks = []\<rparr>),
         (''F'', \<lparr>block_id = ''F'', block_type = ''function'', block_name = ''F'',
                  triggerMode = False, subBlocks = []\<rparr>)],
      edges = [\<lparr>source = ''hook'', target = ''F''\<rparr>],
      loops = [], parallels = [], workflowSubBlockValues = [], workflowVariables = []\<rparr>"

definition webhookEnv :: Env where
  "webhookEnv =
     (scenarioEnv [])\<lparr>useAccessibleReferencePrefixes :=
        (\<lambda>blockId'. Some (accessiblePrefixesSpec (edges webhookWorkflow) blockId'))\<rparr>"

text \<open>
  A third workflow, \<open>starter -> parallel{P}\<close>: the parallel block \<open>par1\<close> has the
  single member \<open>P\<close>, a function block.
\<close>

definition parallelWorkflow :: "string \<Rightarrow> Workflow" where
  "parallelWorkflow pt =
     \<lparr>blocks =
        [(''starter'', \<lparr>block_id = ''starter'', block_type = ''starter'', block_name = ''Start'',
                        triggerMode = False, subBlocks = []\<rparr>),
         (''par1'', \<lparr>block_id = ''par1'', block_type = ''parallel'', block_name = ''Parallel'',
                     triggerMode = False, subBlocks = []\<rparr>),
         (''P'', \<lparr>block_id = ''P'', block_type = ''function'', block_name = ''P'',
                  triggerMode = False, subBlocks = []\<rparr>)],
      edges = [\<lparr>source = ''starter'', target = ''par1''\<rparr>, \<lparr>source = ''par1'', target = ''P''\<rparr>],
      loops = [],
      parallels = [(''par1'', \<lparr>parallel_nodes = [''P''], parallelType = pt\<rparr>)],
      workflowSubBlockValues = [],
      workflowVariables = []\<rparr>"

definition parallelEnv :: "string \<Rightarrow> Env" where
  "parallelEnv pt =
     (scenarioEnv [])\<lparr>useAccessibleReferencePrefixes :=
        (\<lambda>blockId'. Some (accessiblePrefixesSpec (edges (parallelWorkflow pt)) blockId'))\<rparr>"




text \<open>The group of the parallel, as the dropdown hands it to the selection handler.\<close>

definition groupOfParallel :: BlockTagGroup where
  "groupOfParallel = \<lparr>blockName = ''Parallel'', blockId = ''par1'', blockType = ''parallel'',
                      tags = [''index'', ''currentItem'', ''items''], distance = 0\<rparr>"

text \<open>The scenario with a scope resolver that lists the requesting block itself.\<close>

definition selfListingEnv :: Env where
  "selfListingEnv =
     (scenarioEnv ''forEach'')\<lparr>useAccessibleReferencePrefixes :=
        (\<lambda>blockId'. Some [''A'', blockId', ''starter''])\<rparr>"

text \<open>The groups of \<open>A\<close> and of the loop, as the dropdown hands them to the selection handler.\<close>

definition groupOfA :: BlockTagGroup where
  "groupOfA = \<lparr>blockName = ''A'', blockId = ''A'', blockType = ''mail'',
               tags = [''a.content'', ''a.attachments''], distance = 1\<rparr>"

definition groupOfLoop :: BlockTagGroup where
  "groupOfLoop = \<lparr>blockName = ''Loop'', blockId = ''loop1'', blockType = ''loop'',
                  tags = [''index'', ''currentIteration'', ''currentItem'', ''items''],
                  distance = 0\<rparr>"

section \<open>Reading the traversal\<close>

text \<open>The edges as a relation; a block is reachable from the root along its reflexive transitive closure.\<close>

definition edgeRel :: "Edge list \<Rightarrow> (string \<times> string) set" where
  "edgeRel es = (\<lambda>e. (source e, target e)) ` set es"

text \<open>
  The state after \<open>k\<close> iterations of the loop, from a state and from the queue that
  holds the root at distance 0; \<open>None\<close> once an iteration has raised.
\<close>

fun bfsIter :: "(string \<rightharpoonup> string list) \<Rightarrow> nat \<Rightarrow> bfs_state \<Rightarrow> bfs_state option" where
  "bfsIter adjList 0 s = Some s"
| "bfsIter adjList (Suc k) s =
     (case bfsIter adjList k s of None \<Rightarrow> None | Some s' \<Rightarrow> bfsStep adjList s')"

definition bfsAfter :: "Edge list \<Rightarrow> string \<Rightarrow> nat \<Rightarrow> bfs_state option" where
  "bfsAfter es rootId k =
     (case buildAdjList es of None \<Rightarrow> None | Some adjList \<Rightarrow> bfsIter adjList k (bfsInit rootId))"

text \<open>The two-block cycle \<open>s -> a -> s\<close>.\<close>

definition cycleEdges :: "Edge list" where
  "cycleEdges = [\<lparr>source = ''s'', target = ''a''\<rparr>, \<lparr>source = ''a'', target = ''s''\<rparr>]"

text \<open>
  What every iteration keeps: a distance is recorded for exactly the visited blocks;
  every block visited or queued is reachable from the root; the root is visited or
  queued; every successor of a visited block is visited or queued; and no visited block
  bears the name of a member of \<^verbatim>\<open>Object.prototype\<close>.
\<close>

definition bfsInv :: "Edge list \<Rightarrow> string \<Rightarrow> bfs_state \<Rightarrow> bool" where
  "bfsInv es rootId s \<longleftrightarrow>
     dom (blockDistances s) = visited s
     \<and> visited s \<union> fst ` set (queue s) \<subseteq> {n. (rootId, n) \<in> (edgeRel es)\<^sup>*}
     \<and> rootId \<in> visited s \<union> fst ` set (queue s)
     \<and> (\<forall>n \<in> visited s. \<forall>m. (n, m) \<in> edgeRel es \<longrightarrow> m \<in> visited s \<union> fst ` set (queue s))
     \<and> visited s \<inter> set objectPrototypeKeys = {}"

text \<open>The hop count of a block: the length of a shortest path from the root to it.\<close>

definition hops :: "Edge list \<Rightarrow> string \<Rightarrow> string \<Rightarrow> nat" where
  "hops es rootId n = (LEAST i. (rootId, n) \<in> edgeRel es ^^ i)"

text \<open>
  What every iteration keeps, for the distances: every queue entry carries the length of a
  path from the root to its block; the distance recorded for a visited block is its hop
  count; the distances in the queue ascend and exceed the first by one at most; every
  successor of a visited block is visited or queued one hop further; and the root is
  visited or queued at distance 0.
\<close>

definition bfsDistInv :: "Edge list \<Rightarrow> string \<Rightarrow> bfs_state \<Rightarrow> bool" where
  "bfsDistInv es rootId s \<longleftrightarrow>
     (\<forall>(n, d) \<in> set (queue s). (rootId, n) \<in> edgeRel es ^^ d)
     \<and> (\<forall>n \<in> visited s. blockDistances s n = Some (hops es rootId n)
                         \<and> (\<exists>i. (rootId, n) \<in> edgeRel es ^^ i))
     \<and> sorted (map snd (queue s))
     \<and> (\<forall>(n, d) \<in> set (queue s). d \<le> Suc (snd (hd (queue s))))
     \<and> (\<forall>n \<in> visited s. \<forall>m. (n, m) \<in> edgeRel es \<longrightarrow>
           m \<in> visited s \<or> (m, Suc (hops es rootId n)) \<in> set (queue s))
     \<and> (rootId \<in> visited s \<or> (rootId, 0) \<in> set (queue s))"

section \<open>Reading the flat order\<close>




section \<open>Verified properties\<close>

subsection \<open>Response formats are parsed without an exception\<close>

text \<open>
  C10. \<open>parseResponseFormatSafely\<close> returns on every input, whatever \<^verbatim>\<open>JSON.parse\<close>
  does: a falsy value (\<^verbatim>\<open>null\<close>, \<^verbatim>\<open>undefined\<close>, the empty string, zero,
  \<^verbatim>\<open>false\<close>) gives \<^verbatim>\<open>undefined\<close>; an object or array is returned unchanged; a
  value that is neither an object nor a string gives \<^verbatim>\<open>undefined\<close>; a string is
  trimmed, then returned as it is when it starts with \<^verbatim>\<open><\<close> and contains
  \<^verbatim>\<open>>\<close>, gives \<^verbatim>\<open>undefined\<close> when nothing but white space was in it or when
  \<^verbatim>\<open>JSON.parse\<close> raises on it, and the parsed value otherwise.
\<close>

theorem parseResponseFormatSafely_total:
  "(\<exists>r. parseResponseFormatSafely jsonParse v b = Some r)
   \<and> (\<not> truthy v \<longrightarrow> parseResponseFormatSafely jsonParse v b = Some JUndefined)
   \<and> (isObject v \<longrightarrow> parseResponseFormatSafely jsonParse v b = Some v)
   \<and> (\<not> isObject v \<and> asString v = None \<longrightarrow>
        parseResponseFormatSafely jsonParse v b = Some JUndefined)
   \<and> (\<forall>s. v = JStr s \<longrightarrow>
         parseResponseFormatSafely jsonParse v b =
           Some (if startsWith (trim s) ''<'' \<and> includesStr (trim s) ''>'' then JStr (trim s)
                 else if trim s = [] then JUndefined
                 else (case jsonParse (trim s) of Some parsed \<Rightarrow> parsed | None \<Rightarrow> JUndefined)))"
proof -
  have trim_empty: "trim [] = []" by (simp add: trim_def)
  have sw: "\<not> startsWith [] ''<''" by (simp add: startsWith_def)
  show ?thesis
    by (cases v) (auto simp: parseResponseFormatSafely_def Let_def trim_empty sw split: option.splits)
qed

theorem parseResponseFormatSafely_total_witness:
  "parseResponseFormatSafely (\<lambda>s. None) (JStr ''  <start.input> '') ''b1''
     = Some (JStr ''<start.input>'')
   \<and> parseResponseFormatSafely (\<lambda>s. None) (JStr ''{oops'') ''b1'' = Some JUndefined
   \<and> parseResponseFormatSafely (\<lambda>s. None) (JStr ''   '') ''b1'' = Some JUndefined
   \<and> parseResponseFormatSafely (\<lambda>s. None) (JObj [(''fields'', JArr [])]) ''b1''
     = Some (JObj [(''fields'', JArr [])])
   \<and> parseResponseFormatSafely (\<lambda>s. None) (JNum (Fin 7)) ''b1'' = Some JUndefined
   \<and> parseResponseFormatSafely (\<lambda>s. None) JNull ''b1'' = Some JUndefined"
  using parseResponseFormatSafely_total[of "\<lambda>s. None" "JStr ''  <start.input> ''" "''b1''"]
        parseResponseFormatSafely_total[of "\<lambda>s. None" "JStr ''{oops''" "''b1''"]
        parseResponseFormatSafely_total[of "\<lambda>s. None" "JStr ''   ''" "''b1''"]
        parseResponseFormatSafely_total[of "\<lambda>s. None" "JObj [(''fields'', JArr [])]" "''b1''"]
        parseResponseFormatSafely_total[of "\<lambda>s. None" "JNum (Fin 7)" "''b1''"]
        parseResponseFormatSafely_total[of "\<lambda>s. None" "JNull" "''b1''"]
  by (simp add: trim_def isWhiteSpace_def startsWith_def)

subsection \<open>Declared outputs are flattened with their containers\<close>

text \<open>Every entry of the table is owed by the declaration, and every entry owed is in the table.\<close>

lemma generated_flattened: "e \<in> set (generateOutputPathsWithTypes d pre) \<Longrightarrow> flattened d pre e"
proof (induction d pre arbitrary: e rule: generateOutputPathsWithTypes.induct)
  case (1 outputs prefix)
  from "1.prems" obtain k v where kv: "(k, v) \<in> set (entries outputs)"
    and e: "e \<in> set (let currentPath = joinPath prefix k in
        (case asString v of
           Some t \<Rightarrow> [(currentPath, t)]
         | None \<Rightarrow>
             if isObject v then
               (case typeField v of
                  Some ty \<Rightarrow>
                    if ty = ''array'' \<and> truthy (getProp (getProp v ''items'') ''properties'') then
                      (currentPath, ''array'') #
                      generateOutputPathsWithTypes
                        (getProp (getProp v ''items'') ''properties'') currentPath
                    else if ty = ''object'' \<and> truthy (getProp v ''properties'') then
                      (currentPath, ''object'') #
                      generateOutputPathsWithTypes (getProp v ''properties'') currentPath
                    else [(currentPath, ty)]
                | None \<Rightarrow> generateOutputPathsWithTypes v currentPath)
             else [(currentPath, ''any'')]))"
    by (subst (asm) generateOutputPathsWithTypes.simps) auto
  show ?case
  proof (cases "shapeOf v")
    case (LeafType t)
    with e have "e = (joinPath prefix k, t)"
      by (auto simp: shapeOf_def Let_def split: option.splits if_splits)
    with kv LeafType show ?thesis by (auto intro: flattened.leaf)
  next
    case (ObjectShape p)
    then have *: "asString v = None" "isObject v" "typeField v = Some ''object''" "truthy (getProp v ''properties'')" "p = getProp v ''properties''"
      "\<not> (''object'' = ''array'' \<and> truthy (getProp (getProp v ''items'') ''properties''))"
      by (auto simp: shapeOf_def Let_def split: option.splits if_splits)
    with e consider "e = (joinPath prefix k, ''object'')" | "e \<in> set (generateOutputPathsWithTypes p (joinPath prefix k))"
      by (auto simp: Let_def)
    then show ?thesis
    proof cases
      case 1
      with kv ObjectShape show ?thesis by (auto intro: flattened.object_node)
    next
      case 2
      have "flattened p (joinPath prefix k) e"
        using "1.IH"(3)[OF kv refl refl *(1) *(2) *(3)] * 2 by auto
      with kv ObjectShape show ?thesis by (auto intro: flattened.object_desc)
    qed
  next
    case (ArrayShape p)
    then have *: "asString v = None" "isObject v" "typeField v = Some ''array''" "truthy (getProp (getProp v ''items'') ''properties'')" "p = getProp (getProp v ''items'') ''properties''"
      by (auto simp: shapeOf_def Let_def split: option.splits if_splits)
    with e consider "e = (joinPath prefix k, ''array'')" | "e \<in> set (generateOutputPathsWithTypes p (joinPath prefix k))"
      by (auto simp: Let_def)
    then show ?thesis
    proof cases
      case 1
      with kv ArrayShape show ?thesis by (auto intro: flattened.array_node)
    next
      case 2
      have "flattened p (joinPath prefix k) e"
        using "1.IH"(2)[OF kv refl refl *(1) *(2) *(3)] * 2 by auto
      with kv ArrayShape show ?thesis by (auto intro: flattened.array_desc)
    qed
  next
    case LegacyNested
    then have *: "asString v = None" "isObject v" "typeField v = None"
      by (auto simp: shapeOf_def Let_def split: option.splits if_splits)
    with e have 2: "e \<in> set (generateOutputPathsWithTypes v (joinPath prefix k))"
      by (auto simp: Let_def)
    have "flattened v (joinPath prefix k) e"
      using "1.IH"(1)[OF kv refl refl *(1) *(2) *(3)] 2 by auto
    with kv LegacyNested show ?thesis by (auto intro: flattened.legacy_desc)
  next
    case Unrecognized
    with e have "e = (joinPath prefix k, ''any'')"
      by (auto simp: shapeOf_def Let_def split: option.splits if_splits)
    with kv Unrecognized show ?thesis by (auto intro: flattened.unrecognized)
  qed
qed

lemma generated_entry_subset:
  "(k, v) \<in> set (entries d) \<Longrightarrow>
   set (let currentPath = joinPath pre k in
        (case asString v of
           Some t \<Rightarrow> [(currentPath, t)]
         | None \<Rightarrow>
             if isObject v then
               (case typeField v of
                  Some ty \<Rightarrow>
                    if ty = ''array'' \<and> truthy (getProp (getProp v ''items'') ''properties'') then
                      (currentPath, ''array'') #
                      generateOutputPathsWithTypes
                        (getProp (getProp v ''items'') ''properties'') currentPath
                    else if ty = ''object'' \<and> truthy (getProp v ''properties'') then
                      (currentPath, ''object'') #
                      generateOutputPathsWithTypes (getProp v ''properties'') currentPath
                    else [(currentPath, ty)]
                | None \<Rightarrow> generateOutputPathsWithTypes v currentPath)
             else [(currentPath, ''any'')])) \<subseteq> set (generateOutputPathsWithTypes d pre)"
  by (subst (2) generateOutputPathsWithTypes.simps) force

lemma flattened_generated: "flattened d pre e \<Longrightarrow> e \<in> set (generateOutputPathsWithTypes d pre)"
proof (induction rule: flattened.induct)
  case (leaf k v d t pre)
  from generated_entry_subset[OF leaf(1), of pre] leaf(2) show ?case
    by (auto simp: shapeOf_def Let_def split: option.splits if_splits)
next
  case (unrecognized k v d pre)
  from generated_entry_subset[OF unrecognized(1), of pre] unrecognized(2) show ?case
    by (auto simp: shapeOf_def Let_def split: option.splits if_splits)
next
  case (object_node k v d p pre)
  from generated_entry_subset[OF object_node(1), of pre] object_node(2) show ?case
    by (auto simp: shapeOf_def Let_def split: option.splits if_splits)
next
  case (array_node k v d p pre)
  from generated_entry_subset[OF array_node(1), of pre] array_node(2) show ?case
    by (auto simp: shapeOf_def Let_def split: option.splits if_splits)
next
  case (object_desc k v d p pre e)
  from generated_entry_subset[OF object_desc(1), of pre] object_desc(2) object_desc.IH show ?case
    by (auto simp: shapeOf_def Let_def split: option.splits if_splits)
next
  case (array_desc k v d p pre e)
  from generated_entry_subset[OF array_desc(1), of pre] array_desc(2) array_desc.IH show ?case
    by (auto simp: shapeOf_def Let_def split: option.splits if_splits)
next
  case (legacy_desc k v d pre e)
  from generated_entry_subset[OF legacy_desc(1), of pre] legacy_desc(2) legacy_desc.IH show ?case
    by (auto simp: shapeOf_def Let_def split: option.splits if_splits)
qed

text \<open>The paths offered as tags stop at a typed entry: the example has the single path \<open>result\<close>.\<close>

lemma generateOutputPaths_declaredResult:
  "generateOutputPaths declaredResult [] = [''result'']"
  by (simp add: generateOutputPaths.simps declaredResult_def joinPath_def)

text \<open>
  C3. For the declared outputs
  \<^verbatim>\<open>{result: {type: "object", properties: {a: "string", b: {type: "number"}}}}\<close> the
  path-to-type table has exactly the three entries \<open>result\<close> of type object,
  \<open>result.a\<close> of type string and \<open>result.b\<close> of type number, without duplicates.
  In general the table of a declaration holds exactly the entries of its flattening: one
  for each object or array shape itself, one for each leaf below it, under dotted paths.
\<close>

theorem generateOutputPathsWithTypes_flattens:
  "generateOutputPathsWithTypes declaredResult [] =
     [(''result'', ''object''), (''result.a'', ''string''), (''result.b'', ''number'')]
   \<and> distinct (generateOutputPathsWithTypes declaredResult [])
   \<and> (e \<in> set (generateOutputPathsWithTypes d pre) \<longleftrightarrow> flattened d pre e)"
proof -
  have ex: "generateOutputPathsWithTypes declaredResult [] =
     [(''result'', ''object''), (''result.a'', ''string''), (''result.b'', ''number'')]"
    by (simp add: generateOutputPathsWithTypes.simps declaredResult_def joinPath_def)
  have "distinct (generateOutputPathsWithTypes declaredResult [])"
    unfolding ex by simp
  moreover have "e \<in> set (generateOutputPathsWithTypes d pre) \<longleftrightarrow> flattened d pre e"
    using generated_flattened flattened_generated by blast
  ultimately show ?thesis using ex by blast
qed

theorem generateOutputPathsWithTypes_flattens_witness:
  "flattened declaredResult [] (''result'', ''object'')
   \<and> flattened declaredResult [] (''result.b'', ''number'')
   \<and> \<not> flattened declaredResult [] (''result.b'', ''string'')"
  using generateOutputPathsWithTypes_flattens[of "(''result'', ''object'')" declaredResult "[]"]
        generateOutputPathsWithTypes_flattens[of "(''result.b'', ''number'')" declaredResult "[]"]
        generateOutputPathsWithTypes_flattens[of "(''result.b'', ''string'')" declaredResult "[]"]
  by auto


subsection \<open>Indices and slices\<close>

lemma indexOf_range: "indexOf s c = -1 \<or> (0 \<le> indexOf s c \<and> indexOf s c < int (length s))"
  by (induction s) (auto simp: Let_def)

lemma indexOf_absent: "indexOf s c = -1 \<longleftrightarrow> c \<notin> set s"
proof (induction s)
  case Nil
  show ?case by simp
next
  case (Cons x xs)
  have "indexOf xs c = -1 \<or> 0 \<le> indexOf xs c" using indexOf_range[of xs c] by auto
  with Cons show ?case by (auto simp: Let_def)
qed

lemma indexOf_split:
  "indexOf s c \<noteq> -1 \<Longrightarrow>
     s = take (nat (indexOf s c)) s @ c # drop (nat (indexOf s c) + 1) s
     \<and> c \<notin> set (take (nat (indexOf s c)) s)"
proof (induction s)
  case Nil
  then show ?case by simp
next
  case (Cons x xs)
  show ?case
  proof (cases "x = c")
    case True
    then show ?thesis by simp
  next
    case False
    with Cons.prems have ne: "indexOf xs c \<noteq> -1" by (auto simp: Let_def)
    then have ge: "0 \<le> indexOf xs c" using indexOf_range[of xs c] by auto
    from False ne have eq: "indexOf (x # xs) c = indexOf xs c + 1" by (simp add: Let_def)
    have n: "nat (indexOf xs c + 1) = Suc (nat (indexOf xs c))" using ge by simp
    from Cons.IH[OF ne] False show ?thesis unfolding eq n by simp
  qed
qed

lemma lastIndexOf_absent: "lastIndexOf s c = -1 \<longleftrightarrow> c \<notin> set s"
proof -
  have r: "indexOf (rev s) c = -1 \<or> (0 \<le> indexOf (rev s) c \<and> indexOf (rev s) c < int (length s))"
    using indexOf_range[of "rev s" c] by simp
  have "indexOf (rev s) c = -1 \<longleftrightarrow> c \<notin> set s" using indexOf_absent[of "rev s" c] by simp
  with r show ?thesis by (auto simp: lastIndexOf_def Let_def)
qed

lemma lastIndexOf_range:
  "lastIndexOf s c = -1 \<or> (0 \<le> lastIndexOf s c \<and> lastIndexOf s c < int (length s))"
  using indexOf_range[of "rev s" c] by (auto simp: lastIndexOf_def Let_def)

lemma lastIndexOf_snoc_same: "lastIndexOf (s @ [c]) c = int (length s)"
  by (simp add: lastIndexOf_def)

lemma lastIndexOf_snoc_other: "d \<noteq> c \<Longrightarrow> lastIndexOf (s @ [d]) c = lastIndexOf s c"
  using indexOf_range[of "rev s" c] by (auto simp: lastIndexOf_def Let_def)

lemma lastIndexOf_split:
  assumes "lastIndexOf s c \<noteq> -1"
  shows "s = take (nat (lastIndexOf s c)) s @ c # drop (nat (lastIndexOf s c) + 1) s
         \<and> c \<notin> set (drop (nat (lastIndexOf s c) + 1) s)"
proof -
  let ?i = "indexOf (rev s) c"
  from assms have ne: "?i \<noteq> -1" by (auto simp: lastIndexOf_def Let_def)
  then have rg: "0 \<le> ?i" "?i < int (length s)" using indexOf_range[of "rev s" c] by auto
  from ne have l: "lastIndexOf s c = int (length s) - 1 - ?i" by (simp add: lastIndexOf_def)
  define k where "k = nat ?i"
  have k: "k < length s" using rg by (simp add: k_def)
  have nl: "nat (lastIndexOf s c) = length s - 1 - k" using rg l by (simp add: k_def nat_diff_distrib)
  from indexOf_split[OF ne] have sp: "rev s = take k (rev s) @ c # drop (k + 1) (rev s)"
    and na: "c \<notin> set (take k (rev s))" by (simp_all add: k_def)
  have t: "take k (rev s) = rev (drop (length s - k) s)" by (simp add: take_rev)
  have d: "drop (k + 1) (rev s) = rev (take (length s - (k + 1)) s)" by (simp add: drop_rev)
  from sp have "s = rev (take k (rev s) @ c # drop (k + 1) (rev s))" by (metis rev_rev_ident)
  then have s: "s = take (length s - (k + 1)) s @ c # drop (length s - k) s"
    unfolding t d by simp
  have idx: "length s - 1 - k + 1 = length s - k" using k by simp
  have idx2: "length s - (k + 1) = length s - 1 - k" by simp
  from na have "c \<notin> set (drop (length s - k) s)" unfolding t by simp
  moreover have "Suc (length s - Suc k) = length s - k" using k by simp
  ultimately show ?thesis using s unfolding nl idx idx2[symmetric] by simp
qed

lemma slice0_take: "0 \<le> k \<Longrightarrow> slice s 0 k = take (nat k) s"
  by (auto simp: slice_def relIndex_def Let_def min_def)

subsection \<open>What an insertion writes\<close>

lemma handleTagSelect_no_open:
  "CHR ''<'' \<notin> set (slice v 0 c) \<Longrightarrow> handleTagSelect env w v c tag g = NoOp"
  by (simp add: handleTagSelect_def lastIndexOf_absent)

lemma indexOf_first_split:
  assumes "s = between @ c # rest" and "c \<notin> set between"
  shows "indexOf s c = int (length between)"
  using assms by (induction between arbitrary: s) (auto simp: Let_def)

lemma lastIndexOf_last_split:
  assumes "s = P @ c # Q" and "c \<notin> set Q"
  shows "lastIndexOf s c = int (length P)"
proof -
  have r: "rev s = rev Q @ c # rev P" using assms(1) by simp
  have "c \<notin> set (rev Q)" using assms(2) by simp
  with r have "indexOf (rev s) c = int (length (rev Q))" by (rule indexOf_first_split)
  then show ?thesis using assms(1) by (simp add: lastIndexOf_def)
qed

lemma slice0_prefix: "slice (P @ R) 0 (int (length P)) = P"
  by (simp add: slice_def relIndex_def)

lemma sliceFrom_suffix: "sliceFrom (P @ R) (int (length P)) = R"
  by (simp add: sliceFrom_def relIndex_def)

lemma handleTagSelect_selected:
  assumes b: "slice v 0 c = P @ CHR ''<'' # Q" and q: "CHR ''<'' \<notin> set Q"
    and pt: "processedTagOf env w tag g = Some pt"
  shows "handleTagSelect env w v c tag g =
           Selected (P @ ''<'' @ pt @ ''>'' @
             (if indexOf (sliceFrom v c) CHR ''>'' \<noteq> -1 \<and>
                 isPartialReference (slice (sliceFrom v c) 0 (indexOf (sliceFrom v c) CHR ''>''))
              then sliceFrom (sliceFrom v c) (indexOf (sliceFrom v c) CHR ''>'' + 1)
              else sliceFrom v c))"
proof -
  have l: "lastIndexOf (slice v 0 c) CHR ''<'' = int (length P)"
    using lastIndexOf_last_split[OF b q] .
  have p: "slice (slice v 0 c) 0 (int (length P)) = P"
    unfolding b using slice0_prefix[of P "CHR ''<'' # Q"] by simp
  show ?thesis
    by (simp add: handleTagSelect_def l p pt Let_def)
qed

lemma nearestUnterminatedOpen_last:
  assumes "s = P @ CHR ''<'' # Q" and "CHR ''<'' \<notin> set Q"
  shows "nearestUnterminatedOpen s = (if CHR ''>'' \<in> set Q then None else Some (length P))"
proof -
  have l: "lastIndexOf s CHR ''<'' = int (length P)"
    using lastIndexOf_last_split[OF assms] .
  have d: "drop (Suc (length P)) s = Q" using assms(1) by simp
  show ?thesis by (simp add: nearestUnterminatedOpen_def l d)
qed

text \<open>
  C6, as the code has it. Without a \<^verbatim>\<open><\<close> before the cursor the selection does
  nothing. Otherwise the text from the last \<^verbatim>\<open><\<close> before the cursor up to the cursor
  is replaced by the processed tag between \<^verbatim>\<open><\<close> and \<^verbatim>\<open>>\<close>, whether or not
  a \<^verbatim>\<open>>\<close> already closes that \<^verbatim>\<open><\<close>; it is the nearest unterminated opening
  delimiter whenever there is one. After the cursor, the text up to and including the
  first \<^verbatim>\<open>>\<close> is dropped exactly when the text before that \<^verbatim>\<open>>\<close> consists of
  ASCII letters, digits, dots and underscores only.
\<close>

theorem handleTagSelect_splices:
  "(CHR ''<'' \<notin> set (slice v 0 c) \<longrightarrow> handleTagSelect env w v c tag g = NoOp)
   \<and> (\<forall>P Q pt. slice v 0 c = P @ CHR ''<'' # Q \<and> CHR ''<'' \<notin> set Q
                 \<and> processedTagOf env w tag g = Some pt \<longrightarrow>
         (\<forall>i. nearestUnterminatedOpen (slice v 0 c) = Some i \<longrightarrow> i = length P)
         \<and> (\<forall>between rest. sliceFrom v c = between @ CHR ''>'' # rest \<and> CHR ''>'' \<notin> set between \<longrightarrow>
            handleTagSelect env w v c tag g =
              Selected (P @ ''<'' @ pt @ ''>'' @
                        (if isPartialReference between then rest else sliceFrom v c)))
         \<and> (CHR ''>'' \<notin> set (sliceFrom v c) \<longrightarrow>
              handleTagSelect env w v c tag g = Selected (P @ ''<'' @ pt @ ''>'' @ sliceFrom v c)))"
proof (intro conjI allI impI)
  assume "CHR ''<'' \<notin> set (slice v 0 c)"
  then show "handleTagSelect env w v c tag g = NoOp" by (rule handleTagSelect_no_open)
next
  fix P Q pt i
  assume a: "slice v 0 c = P @ CHR ''<'' # Q \<and> CHR ''<'' \<notin> set Q \<and> processedTagOf env w tag g = Some pt"
    and n: "nearestUnterminatedOpen (slice v 0 c) = Some i"
  from a have "nearestUnterminatedOpen (slice v 0 c)
                 = (if CHR ''>'' \<in> set Q then None else Some (length P))"
    using nearestUnterminatedOpen_last by blast
  with n show "i = length P" by (simp split: if_splits)
next
  fix P Q pt between rest
  assume a: "slice v 0 c = P @ CHR ''<'' # Q \<and> CHR ''<'' \<notin> set Q \<and> processedTagOf env w tag g = Some pt"
    and s: "sliceFrom v c = between @ CHR ''>'' # rest \<and> CHR ''>'' \<notin> set between"
  from s have i: "indexOf (sliceFrom v c) CHR ''>'' = int (length between)"
    using indexOf_first_split by blast
  have sl: "slice (sliceFrom v c) 0 (int (length between)) = between"
    using s slice0_prefix[of between "CHR ''>'' # rest"] by simp
  have sf: "sliceFrom (sliceFrom v c) (int (length between) + 1) = rest"
    using s sliceFrom_suffix[of "between @ [CHR ''>'']" rest] by (simp add: add.commute)
  from a have "handleTagSelect env w v c tag g =
           Selected (P @ ''<'' @ pt @ ''>'' @
             (if indexOf (sliceFrom v c) CHR ''>'' \<noteq> -1 \<and>
                 isPartialReference (slice (sliceFrom v c) 0 (indexOf (sliceFrom v c) CHR ''>''))
              then sliceFrom (sliceFrom v c) (indexOf (sliceFrom v c) CHR ''>'' + 1)
              else sliceFrom v c))"
    using handleTagSelect_selected by blast
  then show "handleTagSelect env w v c tag g =
              Selected (P @ ''<'' @ pt @ ''>'' @
                        (if isPartialReference between then rest else sliceFrom v c))"
    unfolding i sl sf by simp
next
  fix P Q pt
  assume a: "slice v 0 c = P @ CHR ''<'' # Q \<and> CHR ''<'' \<notin> set Q \<and> processedTagOf env w tag g = Some pt"
    and n: "CHR ''>'' \<notin> set (sliceFrom v c)"
  from n have i: "indexOf (sliceFrom v c) CHR ''>'' = -1" by (simp add: indexOf_absent)
  from a have "handleTagSelect env w v c tag g =
           Selected (P @ ''<'' @ pt @ ''>'' @
             (if indexOf (sliceFrom v c) CHR ''>'' \<noteq> -1 \<and>
                 isPartialReference (slice (sliceFrom v c) 0 (indexOf (sliceFrom v c) CHR ''>''))
              then sliceFrom (sliceFrom v c) (indexOf (sliceFrom v c) CHR ''>'' + 1)
              else sliceFrom v c))"
    using handleTagSelect_selected by blast
  then show "handleTagSelect env w v c tag g = Selected (P @ ''<'' @ pt @ ''>'' @ sliceFrom v c)"
    unfolding i by simp
qed

theorem handleTagSelect_splices_witness:
  "handleTagSelect (scenarioEnv ''forEach'') (scenarioWorkflow ''forEach'') ''plain'' 3
      ''a.content'' (Some groupOfA) = NoOp
   \<and> handleTagSelect (scenarioEnv ''forEach'') (scenarioWorkflow ''forEach'') ''say <ma.x> now'' 7
      ''a.content'' (Some groupOfA) = Selected ''say <a.content> now''
   \<and> handleTagSelect (scenarioEnv ''forEach'') (scenarioWorkflow ''forEach'') ''say <ma x> now'' 7
      ''a.content'' (Some groupOfA) = Selected ''say <a.content> x> now''
   \<and> handleTagSelect (scenarioEnv ''forEach'') (scenarioWorkflow ''forEach'') ''say <ma'' 7
      ''a.content'' (Some groupOfA) = Selected ''say <a.content>''"
proof -
  let ?E = "scenarioEnv ''forEach''" and ?W = "scenarioWorkflow ''forEach''"
  have pt: "processedTagOf ?E ?W ''a.content'' (Some groupOfA) = Some ''a.content''"
    by code_simp
  have n1: "CHR ''<'' \<notin> set (slice ''plain'' 0 3)" by code_simp
  have b2: "slice ''say <ma.x> now'' 0 7 = ''say '' @ CHR ''<'' # ''ma''" by code_simp
  have a2: "sliceFrom ''say <ma.x> now'' 7 = ''.x'' @ CHR ''>'' # '' now''" by code_simp
  have r2: "isPartialReference ''.x''" by code_simp
  have b3: "slice ''say <ma x> now'' 0 7 = ''say '' @ CHR ''<'' # ''ma''" by code_simp
  have a3: "sliceFrom ''say <ma x> now'' 7 = '' x'' @ CHR ''>'' # '' now''" by code_simp
  have r3: "\<not> isPartialReference '' x''" by code_simp
  have b4: "slice ''say <ma'' 0 7 = ''say '' @ CHR ''<'' # ''ma''" by code_simp
  have a4: "sliceFrom ''say <ma'' 7 = []" by code_simp
  have r1: "handleTagSelect ?E ?W ''plain'' 3 ''a.content'' (Some groupOfA) = NoOp"
    using handleTagSelect_splices[of "''plain''" 3 ?E ?W "''a.content''" "Some groupOfA",
            THEN conjunct1, rule_format, OF n1] .
  have A2: "slice ''say <ma.x> now'' 0 7 = ''say '' @ CHR ''<'' # ''ma'' \<and> CHR ''<'' \<notin> set ''ma''
            \<and> processedTagOf ?E ?W ''a.content'' (Some groupOfA) = Some ''a.content''"
    using b2 pt by simp
  have B2: "sliceFrom ''say <ma.x> now'' 7 = ''.x'' @ CHR ''>'' # '' now'' \<and> CHR ''>'' \<notin> set ''.x''"
    using a2 by simp
  note C2 = handleTagSelect_splices[of "''say <ma.x> now''" 7 ?E ?W "''a.content''" "Some groupOfA",
              THEN conjunct2, rule_format, OF A2]
  have r2': "handleTagSelect ?E ?W ''say <ma.x> now'' 7 ''a.content'' (Some groupOfA)
                   = Selected ''say <a.content> now''"
    using C2[THEN conjunct2, THEN conjunct1, rule_format, OF B2] r2 by simp
  have A3: "slice ''say <ma x> now'' 0 7 = ''say '' @ CHR ''<'' # ''ma'' \<and> CHR ''<'' \<notin> set ''ma''
            \<and> processedTagOf ?E ?W ''a.content'' (Some groupOfA) = Some ''a.content''"
    using b3 pt by simp
  have B3: "sliceFrom ''say <ma x> now'' 7 = '' x'' @ CHR ''>'' # '' now'' \<and> CHR ''>'' \<notin> set '' x''"
    using a3 by simp
  note C3 = handleTagSelect_splices[of "''say <ma x> now''" 7 ?E ?W "''a.content''" "Some groupOfA",
              THEN conjunct2, rule_format, OF A3]
  have r3': "handleTagSelect ?E ?W ''say <ma x> now'' 7 ''a.content'' (Some groupOfA)
                   = Selected ''say <a.content> x> now''"
    using C3[THEN conjunct2, THEN conjunct1, rule_format, OF B3] r3 a3 by simp
  have A4: "slice ''say <ma'' 0 7 = ''say '' @ CHR ''<'' # ''ma'' \<and> CHR ''<'' \<notin> set ''ma''
            \<and> processedTagOf ?E ?W ''a.content'' (Some groupOfA) = Some ''a.content''"
    using b4 pt by simp
  have B4: "CHR ''>'' \<notin> set (sliceFrom ''say <ma'' 7)" using a4 by simp
  note C4 = handleTagSelect_splices[of "''say <ma''" 7 ?E ?W "''a.content''" "Some groupOfA",
              THEN conjunct2, rule_format, OF A4]
  have r4: "handleTagSelect ?E ?W ''say <ma'' 7 ''a.content'' (Some groupOfA)
                   = Selected ''say <a.content>''"
    using C4[THEN conjunct2, THEN conjunct2, rule_format, OF B4] a4 by simp
  from r1 r2' r3' r4 show ?thesis by simp
qed

text \<open>
  The claim as it stands has the replaced span begin at an unterminated \<^verbatim>\<open><\<close>. In
  \<^verbatim>\<open><a> x\<close> with the cursor at the end no opening delimiter is unterminated, and the
  selection replaces the whole text from the closed \<^verbatim>\<open><\<close> on.
\<close>

theorem handleTagSelect_terminated_open_counterexample:
  "CHR ''<'' \<in> set (slice ''<a> x'' 0 5)
   \<and> nearestUnterminatedOpen (slice ''<a> x'' 0 5) = None
   \<and> handleTagSelect (scenarioEnv ''forEach'') (scenarioWorkflow ''forEach'') ''<a> x'' 5 ''b'' None
       = Selected ''<b>''"
  by code_simp

subsection \<open>An insertion closes the trigger\<close>

lemma checkTagTrigger_closed:
  "checkTagTrigger (P @ ''<'' @ pt @ ''>'' @ R) (int (length P) + int (length pt) + 2) = False"
proof -
  let ?B = "P @ ''<'' @ pt @ ''>''"
  have len: "int (length P) + int (length pt) + 2 = int (length ?B)" by simp
  have sl: "slice (?B @ R) 0 (int (length ?B)) = ?B" by (rule slice0_prefix)
  have c: "lastIndexOf ?B CHR ''>'' = int (length (P @ ''<'' @ pt))"
    using lastIndexOf_snoc_same[of "P @ ''<'' @ pt" "CHR ''>''"] by simp
  have "lastIndexOf ?B CHR ''<'' = lastIndexOf (P @ ''<'' @ pt) CHR ''<''"
    using lastIndexOf_snoc_other[of "CHR ''>''" "CHR ''<''" "P @ ''<'' @ pt"] by simp
  moreover have "lastIndexOf (P @ ''<'' @ pt) CHR ''<'' < int (length (P @ ''<'' @ pt))"
    using lastIndexOf_range[of "P @ ''<'' @ pt" "CHR ''<''"] by auto
  ultimately have o: "lastIndexOf ?B CHR ''<'' < lastIndexOf ?B CHR ''>''" using c by simp
  have "checkTagTrigger (?B @ R) (int (length ?B)) = False"
    unfolding checkTagTrigger_def sl Let_def using o c by auto
  then show ?thesis unfolding len by simp
qed

text \<open>
  C5. Whenever a \<^verbatim>\<open><\<close> precedes the cursor and the tag is processed without an
  exception, the selection inserts; with the cursor placed right after the closing
  delimiter it wrote, the text before the cursor ends with the inserted
  \<^verbatim>\<open><tag>\<close> and the trigger check finds nothing pending.
\<close>

theorem insertion_closes_trigger:
  assumes "CHR ''<'' \<in> set (slice v 0 c)"
    and "processedTagOf env w tag g = Some pt"
  shows "\<exists>newValue. handleTagSelect env w v c tag g = Selected newValue
           \<and> slice newValue 0 (cursorAfterInsertion (slice v 0 c) pt) =
               slice (slice v 0 c) 0 (lastIndexOf (slice v 0 c) CHR ''<'') @ ''<'' @ pt @ ''>''
           \<and> checkTagTrigger newValue (cursorAfterInsertion (slice v 0 c) pt) = False"
proof -
  from assms(1) obtain P Q where b: "slice v 0 c = P @ CHR ''<'' # Q" and q: "CHR ''<'' \<notin> set Q"
    by (meson split_list_last)
  have l: "lastIndexOf (slice v 0 c) CHR ''<'' = int (length P)"
    using lastIndexOf_last_split[OF b q] .
  have p: "slice (slice v 0 c) 0 (int (length P)) = P"
    unfolding b using slice0_prefix[of P "CHR ''<'' # Q"] by simp
  obtain R where nv: "handleTagSelect env w v c tag g = Selected (P @ ''<'' @ pt @ ''>'' @ R)"
    using handleTagSelect_selected[OF b q assms(2)] by blast
  have cur: "cursorAfterInsertion (slice v 0 c) pt = int (length (P @ ''<'' @ pt @ ''>''))"
    by (simp add: cursorAfterInsertion_def l)
  have s: "slice (P @ ''<'' @ pt @ ''>'' @ R) 0 (cursorAfterInsertion (slice v 0 c) pt)
             = P @ ''<'' @ pt @ ''>''"
    unfolding cur using slice0_prefix[of "P @ ''<'' @ pt @ ''>''" R] by simp
  have t: "checkTagTrigger (P @ ''<'' @ pt @ ''>'' @ R) (cursorAfterInsertion (slice v 0 c) pt) = False"
    using checkTagTrigger_closed[of P pt R] by (simp add: cursorAfterInsertion_def l)
  show ?thesis using nv s t l p by simp
qed

theorem insertion_closes_trigger_witness:
  "checkTagTrigger ''hello <a.'' 9
   \<and> handleTagSelect (scenarioEnv ''forEach'') (scenarioWorkflow ''forEach'') ''hello <a.'' 9
         ''a.content'' (Some groupOfA) = Selected ''hello <a.content>''
   \<and> cursorAfterInsertion (slice ''hello <a.'' 0 9) ''a.content'' = 17
   \<and> \<not> checkTagTrigger ''hello <a.content>'' 17"
proof -
  have h1: "CHR ''<'' \<in> set (slice ''hello <a.'' 0 9)" by code_simp
  have h2: "processedTagOf (scenarioEnv ''forEach'') (scenarioWorkflow ''forEach'') ''a.content''
              (Some groupOfA) = Some ''a.content''" by code_simp
  have e: "handleTagSelect (scenarioEnv ''forEach'') (scenarioWorkflow ''forEach'') ''hello <a.'' 9
         ''a.content'' (Some groupOfA) = Selected ''hello <a.content>''" by code_simp
  have c: "cursorAfterInsertion (slice ''hello <a.'' 0 9) ''a.content'' = 17" by code_simp
  have t: "checkTagTrigger ''hello <a.'' 9" by code_simp
  from insertion_closes_trigger[OF h1 h2] e c t show ?thesis by auto
qed

subsection \<open>File properties get a first-index accessor\<close>

text \<open>
  C2, as the code has it. A tag selected from a group is rewritten to
  \<open>parent[0].property\<close> when its last segment is one of the file properties, its parent
  field resolves to the type \<open>files\<close>, the group is no loop or parallel group (or the tag
  starts with \<open>variable.\<close>), and the tag is not a \<open>variable.\<close> tag naming a workflow
  variable; so \<open>blockName.attachments.url\<close> becomes \<open>blockName.attachments[0].url\<close>.
  The dot-free tags \<open>index\<close>, \<open>currentItem\<close> and \<open>items\<close> of a loop or parallel
  group are prefixed with the group's block type. A tag selected without a group is
  processed unchanged, and so is every tag of a group to which neither of the two rules
  applies, a file property whose rewrite is undone included. The handler raises exactly
  when the tag of a group ends in a file property and resolving its parent field raises.
\<close>

theorem processedTagOf_file_rewrite:
  "(\<forall>grp. g = Some grp
        \<and> length (split tag CHR ''.'') \<ge> 2 \<and> last (split tag CHR ''.'') \<in> set fileProperties
        \<and> parentFieldType env w grp (split tag CHR ''.'') = Some (JStr ''files'')
        \<and> \<not> (startsWith tag ''variable.'' \<and>
               (\<exists>v \<in> set (workflowVariables w). stripWhiteSpace (var_name v) = drop 9 tag))
        \<and> (startsWith tag ''variable.'' \<or> (blockType grp \<noteq> ''loop'' \<and> blockType grp \<noteq> ''parallel''))
      \<longrightarrow> processedTagOf env w tag g = Some (withFirstIndex (split tag CHR ''.'')))
   \<and> (\<forall>grp. g = Some grp
        \<and> \<not> startsWith tag ''variable.''
        \<and> (blockType grp = ''loop'' \<or> blockType grp = ''parallel'')
        \<and> CHR ''.'' \<notin> set tag \<and> tag \<in> set [''index'', ''currentItem'', ''items'']
      \<longrightarrow> processedTagOf env w tag g = Some (blockType grp @ ''.'' @ tag))
   \<and> (g = None \<longrightarrow> processedTagOf env w tag g = Some tag)
   \<and> (\<forall>grp pt. g = Some grp \<and> processedTagOf env w tag g = Some pt
        \<and> \<not> (length (split tag CHR ''.'') \<ge> 2 \<and> last (split tag CHR ''.'') \<in> set fileProperties
              \<and> parentFieldType env w grp (split tag CHR ''.'') = Some (JStr ''files'')
              \<and> \<not> (startsWith tag ''variable.'' \<and>
                     (\<exists>v \<in> set (workflowVariables w). stripWhiteSpace (var_name v) = drop 9 tag))
              \<and> (startsWith tag ''variable.''
                   \<or> (blockType grp \<noteq> ''loop'' \<and> blockType grp \<noteq> ''parallel'')))
        \<and> \<not> (\<not> startsWith tag ''variable.''
              \<and> (blockType grp = ''loop'' \<or> blockType grp = ''parallel'')
              \<and> CHR ''.'' \<notin> set tag \<and> tag \<in> set [''index'', ''currentItem'', ''items''])
      \<longrightarrow> pt = tag)
   \<and> (processedTagOf env w tag g = None \<longleftrightarrow>
        (\<exists>grp. g = Some grp
           \<and> length (split tag CHR ''.'') \<ge> 2 \<and> last (split tag CHR ''.'') \<in> set fileProperties
           \<and> parentFieldType env w grp (split tag CHR ''.'') = None))
   \<and> withFirstIndex (split ''blockName.attachments.url'' CHR ''.'') = ''blockName.attachments[0].url''"
proof (intro conjI allI impI)
  show "withFirstIndex (split ''blockName.attachments.url'' CHR ''.'') = ''blockName.attachments[0].url''"
    by code_simp
next
  assume "g = None"
  then show "processedTagOf env w tag g = Some tag"
    by (simp add: processedTagOf_def Let_def)
next
  fix grp
  assume "g = Some grp
        \<and> length (split tag CHR ''.'') \<ge> 2 \<and> last (split tag CHR ''.'') \<in> set fileProperties
        \<and> parentFieldType env w grp (split tag CHR ''.'') = Some (JStr ''files'')
        \<and> \<not> (startsWith tag ''variable.'' \<and>
               (\<exists>v \<in> set (workflowVariables w). stripWhiteSpace (var_name v) = drop 9 tag))
        \<and> (startsWith tag ''variable.'' \<or> (blockType grp \<noteq> ''loop'' \<and> blockType grp \<noteq> ''parallel''))"
  then show "processedTagOf env w tag g = Some (withFirstIndex (split tag CHR ''.''))"
    by (auto simp: processedTagOf_def Let_def)
next
  fix grp
  assume a: "g = Some grp
        \<and> \<not> startsWith tag ''variable.''
        \<and> (blockType grp = ''loop'' \<or> blockType grp = ''parallel'')
        \<and> CHR ''.'' \<notin> set tag \<and> tag \<in> set [''index'', ''currentItem'', ''items'']"
  then have "split tag CHR ''.'' = [tag]" by auto
  with a show "processedTagOf env w tag g = Some (blockType grp @ ''.'' @ tag)"
    by (auto simp: processedTagOf_def Let_def)
next
  fix grp pt
  assume "g = Some grp \<and> processedTagOf env w tag g = Some pt
        \<and> \<not> (length (split tag CHR ''.'') \<ge> 2 \<and> last (split tag CHR ''.'') \<in> set fileProperties
              \<and> parentFieldType env w grp (split tag CHR ''.'') = Some (JStr ''files'')
              \<and> \<not> (startsWith tag ''variable.'' \<and>
                     (\<exists>v \<in> set (workflowVariables w). stripWhiteSpace (var_name v) = drop 9 tag))
              \<and> (startsWith tag ''variable.''
                   \<or> (blockType grp \<noteq> ''loop'' \<and> blockType grp \<noteq> ''parallel'')))
        \<and> \<not> (\<not> startsWith tag ''variable.''
              \<and> (blockType grp = ''loop'' \<or> blockType grp = ''parallel'')
              \<and> CHR ''.'' \<notin> set tag \<and> tag \<in> set [''index'', ''currentItem'', ''items''])"
  then show "pt = tag"
    by (auto simp: processedTagOf_def Let_def split: option.splits if_splits)
next
  show "processedTagOf env w tag g = None \<longleftrightarrow>
        (\<exists>grp. g = Some grp
           \<and> length (split tag CHR ''.'') \<ge> 2 \<and> last (split tag CHR ''.'') \<in> set fileProperties
           \<and> parentFieldType env w grp (split tag CHR ''.'') = None)"
    by (auto simp: processedTagOf_def Let_def split: option.splits if_splits)
qed

theorem processedTagOf_file_rewrite_witness:
  "processedTagOf (scenarioEnv ''forEach'') (scenarioWorkflow ''forEach'') ''a.attachments.url''
      (Some groupOfA) = Some ''a.attachments[0].url''
   \<and> processedTagOf (scenarioEnv ''forEach'') (scenarioWorkflow ''forEach'') ''items''
      (Some groupOfLoop) = Some ''loop.items''
   \<and> processedTagOf (scenarioEnv ''forEach'') (scenarioWorkflow ''forEach'') ''a.content.url''
      (Some groupOfA) = Some ''a.content.url''
   \<and> processedTagOf (scenarioEnv ''forEach'') (scenarioWorkflow ''forEach'') ''a.attachments.url''
      (Some (groupOfA\<lparr>blockType := ''loop''\<rparr>)) = Some ''a.attachments.url''
   \<and> processedTagOf (scenarioEnv ''forEach'') (scenarioWorkflow ''forEach'') ''a.attachments.url''
      None = Some ''a.attachments.url''
   \<and> handleTagSelect (scenarioEnv ''forEach'') (scenarioWorkflow ''forEach'') ''see <a.att'' 10
      ''a.attachments.url'' (Some groupOfA) = Selected ''see <a.attachments[0].url>''"
proof -
  let ?E = "scenarioEnv ''forEach''" and ?W = "scenarioWorkflow ''forEach''"
  let ?gl = "groupOfA\<lparr>blockType := ''loop''\<rparr>"
  have h1: "Some groupOfA = Some groupOfA
        \<and> length (split ''a.attachments.url'' CHR ''.'') \<ge> 2
        \<and> last (split ''a.attachments.url'' CHR ''.'') \<in> set fileProperties
        \<and> parentFieldType ?E ?W groupOfA (split ''a.attachments.url'' CHR ''.'') = Some (JStr ''files'')
        \<and> \<not> (startsWith ''a.attachments.url'' ''variable.'' \<and>
               (\<exists>v \<in> set (workflowVariables ?W). stripWhiteSpace (var_name v) = drop 9 ''a.attachments.url''))
        \<and> (startsWith ''a.attachments.url'' ''variable.''
             \<or> (blockType groupOfA \<noteq> ''loop'' \<and> blockType groupOfA \<noteq> ''parallel''))"
    by code_simp
  have w1: "withFirstIndex (split ''a.attachments.url'' CHR ''.'') = ''a.attachments[0].url''"
    by code_simp
  have r1: "processedTagOf ?E ?W ''a.attachments.url'' (Some groupOfA) = Some ''a.attachments[0].url''"
    using processedTagOf_file_rewrite[of "Some groupOfA" "''a.attachments.url''" ?E ?W,
            THEN conjunct1, rule_format, OF h1] w1 by simp
  have h2: "Some groupOfLoop = Some groupOfLoop
        \<and> \<not> startsWith ''items'' ''variable.''
        \<and> (blockType groupOfLoop = ''loop'' \<or> blockType groupOfLoop = ''parallel'')
        \<and> CHR ''.'' \<notin> set ''items'' \<and> ''items'' \<in> set [''index'', ''currentItem'', ''items'']"
    by code_simp
  have b2: "blockType groupOfLoop @ ''.'' @ ''items'' = ''loop.items''" by code_simp
  have r2: "processedTagOf ?E ?W ''items'' (Some groupOfLoop) = Some ''loop.items''"
    using processedTagOf_file_rewrite[of "Some groupOfLoop" "''items''" ?E ?W,
            THEN conjunct2, THEN conjunct1, rule_format, OF h2] b2 by simp
  have e3: "processedTagOf ?E ?W ''a.content.url'' (Some groupOfA) \<noteq> None" by code_simp
  then obtain pt where p3: "processedTagOf ?E ?W ''a.content.url'' (Some groupOfA) = Some pt" by blast
  have n3: "\<not> (length (split ''a.content.url'' CHR ''.'') \<ge> 2
              \<and> last (split ''a.content.url'' CHR ''.'') \<in> set fileProperties
              \<and> parentFieldType ?E ?W groupOfA (split ''a.content.url'' CHR ''.'') = Some (JStr ''files'')
              \<and> \<not> (startsWith ''a.content.url'' ''variable.'' \<and>
                     (\<exists>v \<in> set (workflowVariables ?W). stripWhiteSpace (var_name v) = drop 9 ''a.content.url''))
              \<and> (startsWith ''a.content.url'' ''variable.''
                   \<or> (blockType groupOfA \<noteq> ''loop'' \<and> blockType groupOfA \<noteq> ''parallel'')))"
    by code_simp
  have m3: "\<not> (\<not> startsWith ''a.content.url'' ''variable.''
              \<and> (blockType groupOfA = ''loop'' \<or> blockType groupOfA = ''parallel'')
              \<and> CHR ''.'' \<notin> set ''a.content.url''
              \<and> ''a.content.url'' \<in> set [''index'', ''currentItem'', ''items''])"
    by code_simp
  have r3: "pt = ''a.content.url''"
    using processedTagOf_file_rewrite[of "Some groupOfA" "''a.content.url''" ?E ?W,
            THEN conjunct2, THEN conjunct2, THEN conjunct2, THEN conjunct1, rule_format,
            of groupOfA pt] p3 n3 m3 by blast
  have e4: "processedTagOf ?E ?W ''a.attachments.url'' (Some ?gl) \<noteq> None" by code_simp
  then obtain pt' where p4: "processedTagOf ?E ?W ''a.attachments.url'' (Some ?gl) = Some pt'" by blast
  have f4: "parentFieldType ?E ?W ?gl (split ''a.attachments.url'' CHR ''.'') = Some (JStr ''files'')"
    by code_simp
  have n4: "\<not> (length (split ''a.attachments.url'' CHR ''.'') \<ge> 2
              \<and> last (split ''a.attachments.url'' CHR ''.'') \<in> set fileProperties
              \<and> parentFieldType ?E ?W ?gl (split ''a.attachments.url'' CHR ''.'') = Some (JStr ''files'')
              \<and> \<not> (startsWith ''a.attachments.url'' ''variable.'' \<and>
                     (\<exists>v \<in> set (workflowVariables ?W). stripWhiteSpace (var_name v) = drop 9 ''a.attachments.url''))
              \<and> (startsWith ''a.attachments.url'' ''variable.''
                   \<or> (blockType ?gl \<noteq> ''loop'' \<and> blockType ?gl \<noteq> ''parallel'')))"
    by code_simp
  have m4: "\<not> (\<not> startsWith ''a.attachments.url'' ''variable.''
              \<and> (blockType ?gl = ''loop'' \<or> blockType ?gl = ''parallel'')
              \<and> CHR ''.'' \<notin> set ''a.attachments.url''
              \<and> ''a.attachments.url'' \<in> set [''index'', ''currentItem'', ''items''])"
    by code_simp
  have r4: "pt' = ''a.attachments.url''"
    using processedTagOf_file_rewrite[of "Some ?gl" "''a.attachments.url''" ?E ?W,
            THEN conjunct2, THEN conjunct2, THEN conjunct2, THEN conjunct1, rule_format,
            of ?gl pt'] p4 n4 m4 by blast
  have r5: "processedTagOf ?E ?W ''a.attachments.url'' None = Some ''a.attachments.url''"
    using processedTagOf_file_rewrite[of None "''a.attachments.url''" ?E ?W,
            THEN conjunct2, THEN conjunct2, THEN conjunct1] by simp
  have r6: "handleTagSelect ?E ?W ''see <a.att'' 10 ''a.attachments.url'' (Some groupOfA)
                   = Selected ''see <a.attachments[0].url>''"
    by code_simp
  from p3 r3 p4 r4 r1 r2 r5 r6 show ?thesis by simp
qed

text \<open>
  The claim as it stands has every tag that is no file property of a \<open>files\<close> field
  inserted unchanged: \<open>index\<close>, selected from the loop group, is inserted as
  \<open>loop.index\<close>.
\<close>

theorem contextual_tag_prefixed_counterexample:
  "\<not> (length (split ''index'' CHR ''.'') \<ge> 2 \<and> last (split ''index'' CHR ''.'') \<in> set fileProperties)
   \<and> handleTagSelect (scenarioEnv ''forEach'') (scenarioWorkflow ''forEach'') ''count <'' 7 ''index''
        (Some groupOfLoop) = Selected ''count <loop.index>''"
  by code_simp

subsection \<open>The distance computation ends on every graph\<close>

text \<open>Building the adjacency list raises exactly when the source of an edge names a member of \<^verbatim>\<open>Object.prototype\<close>.\<close>

lemma buildAdjList_raises:
  "buildAdjList es = None \<longleftrightarrow> (\<exists>e \<in> set es. source e \<in> set objectPrototypeKeys)"
proof (induction es rule: rev_induct)
  case Nil
  show ?case by (simp add: buildAdjList_def)
next
  case (snoc e es)
  show ?case
  proof (cases "buildAdjList es")
    case None
    with snoc.IH show ?thesis by (auto simp: buildAdjList_snoc pushEdge_def)
  next
    case (Some adj0)
    with snoc.IH have no: "\<forall>e \<in> set es. source e \<notin> set objectPrototypeKeys" by simp
    show ?thesis
    proof (cases "adj0 (source e)")
      case None
      with Some no show ?thesis by (auto simp: buildAdjList_snoc pushEdge_def)
    next
      case S: (Some ts)
      with buildAdjList_lookup[OF Some, of "source e"] have "successors es (source e) \<noteq> []"
        by (auto split: if_splits)
      then obtain e' where "e' \<in> set es" "source e' = source e"
        by (auto simp: successors_def filter_empty_conv)
      with no have "source e \<notin> set objectPrototypeKeys" by metis
      with Some S no show ?thesis by (auto simp: buildAdjList_snoc pushEdge_def)
    qed
  qed
qed

lemma set_successors: "set (successors es n) = {m. (n, m) \<in> edgeRel es}"
  by (force simp: successors_def edgeRel_def image_iff)

lemma outgoingNodeIds_built:
  assumes "buildAdjList es = Some adjList"
  shows "outgoingNodeIds adjList n =
           (if successors es n = [] \<and> n \<in> set objectPrototypeKeys then None
            else Some (successors es n))"
  using buildAdjList_lookup[OF assms, of n]
  by (auto simp: outgoingNodeIds_def split: option.splits)

lemma bfsStep_revisit:
  "queue s = (n, d) # rest \<Longrightarrow> n \<in> visited s \<Longrightarrow> bfsStep adjList s = Some (s\<lparr>queue := rest\<rparr>)"
  by (simp add: bfsStep_def)

lemma bfsStep_expand:
  assumes "buildAdjList es = Some adjList" and "queue s = (n, d) # rest" and "n \<notin> visited s"
  shows "bfsStep adjList s =
           (if successors es n = [] \<and> n \<in> set objectPrototypeKeys then None
            else Some (s\<lparr>queue := rest @ map (\<lambda>targetId. (targetId, d + 1)) (successors es n),
                         visited := insert n (visited s),
                         blockDistances := (blockDistances s)(n \<mapsto> d)\<rparr>))"
  using assms(2,3) by (simp add: bfsStep_def outgoingNodeIds_built[OF assms(1)])

lemma bfsStep_visited_entry:
  "bfsStep adjList s = Some s' \<Longrightarrow> n \<in> visited s \<Longrightarrow> blockDistances s' n = blockDistances s n"
  by (auto simp: bfsStep_def split: list.splits if_splits option.splits)

lemma bfsStep_visited_mono: "bfsStep adjList s = Some s' \<Longrightarrow> visited s \<subseteq> visited s'"
  by (auto simp: bfsStep_def split: list.splits if_splits option.splits)

lemma bfsIter_first:
  "bfsIter adjList (Suc k) s =
     (case bfsStep adjList s of None \<Rightarrow> None | Some s' \<Rightarrow> bfsIter adjList k s')"
proof (induction k)
  case 0
  show ?case by (simp split: option.splits)
next
  case (Suc k)
  have "bfsIter adjList (Suc (Suc k)) s =
          (case bfsIter adjList (Suc k) s of None \<Rightarrow> None | Some s' \<Rightarrow> bfsStep adjList s')"
    by simp
  also have "\<dots> = (case bfsStep adjList s of None \<Rightarrow> None | Some s' \<Rightarrow> bfsIter adjList (Suc k) s')"
    unfolding Suc.IH by (simp split: option.splits)
  finally show ?case .
qed

lemma bfsLoop_iterates:
  assumes "buildAdjList es = Some adjList" and "bfsLoop es s = Some f"
  shows "queue f = [] \<and> (\<exists>k. bfsIter adjList k s = Some f)"
  using assms
proof (induction es s rule: bfsLoop.induct)
  case (1 es s)
  show ?case
  proof (cases "queue s = []")
    case True
    with "1.prems" have "f = s" by (simp add: bfsLoop.simps)
    with True have "queue f = [] \<and> bfsIter adjList 0 s = Some f" by simp
    then show ?thesis by blast
  next
    case False
    with "1.prems" obtain s' where st: "bfsStep adjList s = Some s'" and l: "bfsLoop es s' = Some f"
      by (subst (asm) (2) bfsLoop.simps) (auto split: option.splits)
    from "1.IH"[OF False "1.prems"(1) st "1.prems"(1) l] obtain k where
      "queue f = []" "bfsIter adjList k s' = Some f" by blast
    with st have "queue f = [] \<and> bfsIter adjList (Suc k) s = Some f"
      by (simp add: bfsIter_first del: bfsIter.simps)
    then show ?thesis by blast
  qed
qed

lemma bfsLoop_keeps_visited:
  assumes "bfsLoop es s = Some f" and "n \<in> visited s"
  shows "blockDistances f n = blockDistances s n"
  using assms
proof (induction es s rule: bfsLoop.induct)
  case (1 es s)
  show ?case
  proof (cases "queue s = []")
    case True
    with "1.prems" show ?thesis by (simp add: bfsLoop.simps)
  next
    case False
    with "1.prems" obtain adjList s' where a: "buildAdjList es = Some adjList"
      and st: "bfsStep adjList s = Some s'" and l: "bfsLoop es s' = Some f"
      by (subst (asm) bfsLoop.simps) (auto split: option.splits)
    have v: "n \<in> visited s'" using bfsStep_visited_mono[OF st] "1.prems"(2) by blast
    from "1.IH"[OF False a st l v] bfsStep_visited_entry[OF st "1.prems"(2)]
    show ?thesis by simp
  qed
qed

lemma bfsStep_continues:
  assumes "buildAdjList es = Some adjList" and "bfsStep adjList s = Some s'"
  shows "bfsLoop es s' = bfsLoop es s"
proof (cases "queue s = []")
  case True
  with assms(2) have "s' = s" by (simp add: bfsStep_def)
  then show ?thesis by simp
next
  case False
  then show ?thesis using assms by (subst (2) bfsLoop.simps) simp
qed

lemma bfsLoop_after:
  assumes "buildAdjList es = Some adjList"
  shows "bfsIter adjList k s = Some t \<Longrightarrow> bfsLoop es t = bfsLoop es s"
proof (induction k arbitrary: t)
  case 0
  then show ?case by simp
next
  case (Suc k)
  then obtain u where u: "bfsIter adjList k s = Some u" and st: "bfsStep adjList u = Some t"
    by (auto split: option.splits)
  from bfsStep_continues[OF assms st] Suc.IH[OF u] show ?case by simp
qed

lemma bfsInv_init: "bfsInv es rootId (bfsInit rootId)"
  by (simp add: bfsInv_def bfsInit_def)

lemma bfsInv_step:
  assumes adj: "buildAdjList es = Some adjList" and inv: "bfsInv es rootId s"
    and step: "bfsStep adjList s = Some t"
  shows "bfsInv es rootId t"
proof (cases "queue s")
  case Nil
  with step have "t = s" by (simp add: bfsStep_def)
  with inv show ?thesis by simp
next
  case (Cons p rest)
  obtain n d where p: "p = (n, d)" by (cases p)
  with Cons have q: "queue s = (n, d) # rest" by simp
  from inv have dv: "dom (blockDistances s) = visited s"
    and rch: "visited s \<union> fst ` set (queue s) \<subseteq> {n. (rootId, n) \<in> (edgeRel es)\<^sup>*}"
    and rt: "rootId \<in> visited s \<union> fst ` set (queue s)"
    and cl: "\<forall>n \<in> visited s. \<forall>m. (n, m) \<in> edgeRel es \<longrightarrow> m \<in> visited s \<union> fst ` set (queue s)"
    and np: "visited s \<inter> set objectPrototypeKeys = {}"
    by (simp_all add: bfsInv_def)
  have qs: "fst ` set (queue s) = insert n (fst ` set rest)" using q by simp
  show ?thesis
  proof (cases "n \<in> visited s")
    case True
    then have st: "t = s\<lparr>queue := rest\<rparr>"
      using q step by (simp add: bfsStep_def)
    have "visited s \<union> fst ` set rest = visited s \<union> fst ` set (queue s)"
      unfolding qs using True by blast
    with dv rch rt cl np show ?thesis unfolding st bfsInv_def by simp
  next
    case False
    define s' where "s' = s\<lparr>queue := rest @ map (\<lambda>targetId. (targetId, d + 1)) (successors es n),
                 visited := insert n (visited s),
                 blockDistances := (blockDistances s)(n \<mapsto> d)\<rparr>"
    from step bfsStep_expand[OF adj q False]
    have st: "t = s'" and ok: "\<not> (successors es n = [] \<and> n \<in> set objectPrototypeKeys)"
      by (auto simp: s'_def split: if_splits)
    have nP: "n \<notin> set objectPrototypeKeys"
    proof
      assume nin: "n \<in> set objectPrototypeKeys"
      with ok have "successors es n \<noteq> []" by simp
      then obtain e where "e \<in> set es" "source e = n"
        by (auto simp: successors_def filter_empty_conv)
      moreover have "buildAdjList es \<noteq> None" using adj by simp
      ultimately show False using nin buildAdjList_raises[of es] by auto
    qed
    have q': "fst ` set (queue s') = fst ` set rest \<union> {m. (n, m) \<in> edgeRel es}"
      by (simp add: s'_def image_Un image_image set_successors)
    have v': "visited s' = insert n (visited s)" by (simp add: s'_def)
    have d': "dom (blockDistances s') = insert n (dom (blockDistances s))" by (simp add: s'_def)
    have nr: "(rootId, n) \<in> (edgeRel es)\<^sup>*" using rch unfolding qs by blast
    have succ: "{m. (n, m) \<in> edgeRel es} \<subseteq> {m. (rootId, m) \<in> (edgeRel es)\<^sup>*}"
      using nr by (auto intro: rtrancl_into_rtrancl)
    have 1: "dom (blockDistances s') = visited s'" unfolding d' v' dv ..
    have 2: "visited s' \<union> fst ` set (queue s') \<subseteq> {n. (rootId, n) \<in> (edgeRel es)\<^sup>*}"
      unfolding q' v' using rch succ unfolding qs by blast
    have 3: "rootId \<in> visited s' \<union> fst ` set (queue s')"
      unfolding q' v' using rt unfolding qs by blast
    have 4: "\<forall>a \<in> visited s'. \<forall>m. (a, m) \<in> edgeRel es \<longrightarrow> m \<in> visited s' \<union> fst ` set (queue s')"
      unfolding q' v' using cl unfolding qs by blast
    have 5: "visited s' \<inter> set objectPrototypeKeys = {}"
      unfolding v' using np nP by blast
    from 1 2 3 4 5 show ?thesis unfolding st bfsInv_def by blast
  qed
qed

lemma bfsInv_loop:
  assumes "bfsInv es rootId s" and "bfsLoop es s = Some f"
  shows "bfsInv es rootId f"
  using assms
proof (induction es s rule: bfsLoop.induct)
  case (1 es s)
  show ?case
  proof (cases "queue s = []")
    case True
    with "1.prems" show ?thesis by (simp add: bfsLoop.simps)
  next
    case False
    with "1.prems" obtain adjList s' where a: "buildAdjList es = Some adjList"
      and st: "bfsStep adjList s = Some s'" and l: "bfsLoop es s' = Some f"
      by (subst (asm) bfsLoop.simps) (auto split: option.splits)
    from "1.IH"[OF False a st bfsInv_step[OF a "1.prems"(1) st] l] show ?thesis .
  qed
qed

lemma bfsLoop_returns:
  assumes "buildAdjList es = Some adjList"
    and "\<forall>n. (rootId, n) \<in> (edgeRel es)\<^sup>* \<longrightarrow> n \<notin> set objectPrototypeKeys"
    and "bfsInv es rootId s"
  shows "\<exists>f. bfsLoop es s = Some f"
  using assms
proof (induction es s rule: bfsLoop.induct)
  case (1 es s)
  show ?case
  proof (cases "queue s")
    case Nil
    then show ?thesis by (simp add: bfsLoop.simps)
  next
    case (Cons p rest)
    obtain n d where q: "queue s = (n, d) # rest" using Cons by (cases p) simp
    then have ne: "queue s \<noteq> []" by simp
    from "1.prems"(3) q have "(rootId, n) \<in> (edgeRel es)\<^sup>*" by (auto simp: bfsInv_def)
    with "1.prems"(2) have nP: "n \<notin> set objectPrototypeKeys" by blast
    have "\<exists>s'. bfsStep adjList s = Some s'"
    proof (cases "n \<in> visited s")
      case True
      then show ?thesis using bfsStep_revisit[OF q] by blast
    next
      case False
      then show ?thesis using bfsStep_expand[OF "1.prems"(1) q False] nP by simp
    qed
    then obtain s' where st: "bfsStep adjList s = Some s'" ..
    from "1.IH"[OF ne "1.prems"(1) st "1.prems"(1,2) bfsInv_step[OF "1.prems"(1,3) st]]
    obtain f where "bfsLoop es s' = Some f" ..
    then have "bfsLoop es s = Some f"
      using ne "1.prems"(1) st by (subst bfsLoop.simps) simp
    then show ?thesis ..
  qed
qed

lemma visited_final:
  assumes inv: "bfsInv es rootId f" and e: "queue f = []"
  shows "visited f = {n. (rootId, n) \<in> (edgeRel es)\<^sup>*}"
proof -
  from inv e have sub: "visited f \<subseteq> {n. (rootId, n) \<in> (edgeRel es)\<^sup>*}"
    and rt: "rootId \<in> visited f"
    and cl: "\<forall>n \<in> visited f. \<forall>m. (n, m) \<in> edgeRel es \<longrightarrow> m \<in> visited f"
    by (simp_all add: bfsInv_def)
  have "(rootId, n) \<in> (edgeRel es)\<^sup>* \<Longrightarrow> n \<in> visited f" for n
    by (induction rule: rtrancl_induct) (use rt cl in auto)
  with sub show ?thesis by blast
qed

text \<open>
  The computation returns exactly when no source of an edge and no block reachable from
  the root names a member of \<^verbatim>\<open>Object.prototype\<close>; otherwise it raises.
\<close>

lemma distancesFrom_returns:
  "(\<exists>D. distancesFrom es rootId = Some D) \<longleftrightarrow>
     (\<forall>e \<in> set es. source e \<notin> set objectPrototypeKeys)
     \<and> (\<forall>n. (rootId, n) \<in> (edgeRel es)\<^sup>* \<longrightarrow> n \<notin> set objectPrototypeKeys)"
proof
  assume "\<exists>D. distancesFrom es rootId = Some D"
  then obtain adjList f where a: "buildAdjList es = Some adjList"
    and l: "bfsLoop es (bfsInit rootId) = Some f"
    by (auto simp: distancesFrom_def split: option.splits)
  from a have 1: "\<forall>e \<in> set es. source e \<notin> set objectPrototypeKeys"
    using buildAdjList_raises[of es] by auto
  have inv: "bfsInv es rootId f" using bfsInv_loop[OF bfsInv_init l] .
  have "queue f = []" using bfsLoop_iterates[OF a l] by simp
  from visited_final[OF inv this] inv
  have "\<forall>n. (rootId, n) \<in> (edgeRel es)\<^sup>* \<longrightarrow> n \<notin> set objectPrototypeKeys"
    by (auto simp: bfsInv_def)
  with 1 show "(\<forall>e \<in> set es. source e \<notin> set objectPrototypeKeys)
     \<and> (\<forall>n. (rootId, n) \<in> (edgeRel es)\<^sup>* \<longrightarrow> n \<notin> set objectPrototypeKeys)" by blast
next
  assume h: "(\<forall>e \<in> set es. source e \<notin> set objectPrototypeKeys)
     \<and> (\<forall>n. (rootId, n) \<in> (edgeRel es)\<^sup>* \<longrightarrow> n \<notin> set objectPrototypeKeys)"
  then obtain adjList where a: "buildAdjList es = Some adjList"
    using buildAdjList_raises[of es] by auto
  from bfsLoop_returns[OF a _ bfsInv_init] h obtain f where "bfsLoop es (bfsInit rootId) = Some f"
    by blast
  with a show "\<exists>D. distancesFrom es rootId = Some D" by (simp add: distancesFrom_def)
qed

lemma dom_distancesFrom:
  assumes "distancesFrom es rootId = Some D"
  shows "dom D = {n. (rootId, n) \<in> (edgeRel es)\<^sup>*}"
proof -
  from assms obtain adjList f where a: "buildAdjList es = Some adjList"
    and l: "bfsLoop es (bfsInit rootId) = Some f" and D: "D = blockDistances f"
    by (auto simp: distancesFrom_def split: option.splits)
  have inv: "bfsInv es rootId f" using bfsInv_loop[OF bfsInv_init l] .
  have "queue f = []" using bfsLoop_iterates[OF a l] by simp
  from visited_final[OF inv this] inv D show ?thesis by (simp add: bfsInv_def)
qed

lemma bfsInv_after:
  assumes "buildAdjList es = Some adjList"
  shows "bfsIter adjList k (bfsInit rootId) = Some s \<Longrightarrow> bfsInv es rootId s"
proof (induction k arbitrary: s)
  case 0
  then have "s = bfsInit rootId" by simp
  then show ?case by (simp add: bfsInv_init)
next
  case (Suc k)
  then obtain u where u: "bfsIter adjList k (bfsInit rootId) = Some u"
    and st: "bfsStep adjList u = Some s"
    by (auto split: option.splits)
  from bfsInv_step[OF assms Suc.IH[OF u] st] show ?case .
qed

text \<open>
  C9, as the code has it, on a graph where no source of an edge and no block reachable
  from the root bears the name of a member of \<^verbatim>\<open>Object.prototype\<close>. The loop ends:
  some number of iterations empties the queue, and the distances returned are those of
  that state. A distance is recorded for exactly the blocks reachable from the root, so
  an unreachable block is absent. A block keeps the distance of the iteration that
  visited it: whatever is recorded for a visited block at any stage is what the final
  mapping holds. An iteration that takes a visited block from the queue only removes it;
  one that takes an unvisited block records its distance and appends every successor of
  the block to the queue, visited or not, one entry for each edge.
\<close>

theorem bfs_cycle_safe:
  assumes "\<forall>e \<in> set es. source e \<notin> set objectPrototypeKeys"
    and "\<forall>n. (rootId, n) \<in> (edgeRel es)\<^sup>* \<longrightarrow> n \<notin> set objectPrototypeKeys"
  shows "\<exists>D. distancesFrom es rootId = Some D
           \<and> dom D = {n. (rootId, n) \<in> (edgeRel es)\<^sup>*}
           \<and> (\<exists>k f. bfsAfter es rootId k = Some f \<and> queue f = [] \<and> D = blockDistances f)
           \<and> (\<forall>k s. bfsAfter es rootId k = Some s \<longrightarrow>
                 (\<forall>n \<in> visited s. D n = blockDistances s n)
                 \<and> (\<forall>n d rest. queue s = (n, d) # rest \<longrightarrow>
                      bfsAfter es rootId (Suc k) =
                        Some (if n \<in> visited s then s\<lparr>queue := rest\<rparr>
                              else s\<lparr>queue := rest @ map (\<lambda>targetId. (targetId, d + 1)) (successors es n),
                                     visited := insert n (visited s),
                                     blockDistances := (blockDistances s)(n \<mapsto> d)\<rparr>)))
           \<and> (\<forall>n m. (n, m) \<in> edgeRel es \<longleftrightarrow> m \<in> set (successors es n))"
proof -
  from assms(1) obtain adjList where a: "buildAdjList es = Some adjList"
    using buildAdjList_raises[of es] by auto
  from bfsLoop_returns[OF a assms(2) bfsInv_init] obtain f where
    l: "bfsLoop es (bfsInit rootId) = Some f" ..
  define D where "D = blockDistances f"
  have dist: "distancesFrom es rootId = Some D"
    using a l by (simp add: distancesFrom_def D_def)
  have dom: "dom D = {n. (rootId, n) \<in> (edgeRel es)\<^sup>*}"
    using dom_distancesFrom[OF dist] .
  from bfsLoop_iterates[OF a l] obtain k where "queue f = []" "bfsIter adjList k (bfsInit rootId) = Some f"
    by blast
  then have fin: "\<exists>k f. bfsAfter es rootId k = Some f \<and> queue f = [] \<and> D = blockDistances f"
    using a by (auto simp: bfsAfter_def D_def)
  have steps: "(\<forall>n \<in> visited s. D n = blockDistances s n)
                 \<and> (\<forall>n d rest. queue s = (n, d) # rest \<longrightarrow>
                      bfsAfter es rootId (Suc k) =
                        Some (if n \<in> visited s then s\<lparr>queue := rest\<rparr>
                              else s\<lparr>queue := rest @ map (\<lambda>targetId. (targetId, d + 1)) (successors es n),
                                     visited := insert n (visited s),
                                     blockDistances := (blockDistances s)(n \<mapsto> d)\<rparr>))"
    if after: "bfsAfter es rootId k = Some s" for k s
  proof (intro conjI ballI allI impI)
    from after a have it: "bfsIter adjList k (bfsInit rootId) = Some s" by (simp add: bfsAfter_def)
    have same: "bfsLoop es s = Some f" using bfsLoop_after[OF a it] l by simp
    { fix n assume "n \<in> visited s"
      from bfsLoop_keeps_visited[OF same this] show "D n = blockDistances s n" by (simp add: D_def) }
    { fix n d rest assume q: "queue s = (n, d) # rest"
      have inv: "bfsInv es rootId s" using bfsInv_after[OF a it] .
      with q have "(rootId, n) \<in> (edgeRel es)\<^sup>*" by (auto simp: bfsInv_def)
      with assms(2) have nP: "n \<notin> set objectPrototypeKeys" by blast
      have "bfsStep adjList s =
              Some (if n \<in> visited s then s\<lparr>queue := rest\<rparr>
                    else s\<lparr>queue := rest @ map (\<lambda>targetId. (targetId, d + 1)) (successors es n),
                           visited := insert n (visited s),
                           blockDistances := (blockDistances s)(n \<mapsto> d)\<rparr>)"
      proof (cases "n \<in> visited s")
        case True
        then show ?thesis using bfsStep_revisit[OF q] by simp
      next
        case False
        then show ?thesis using bfsStep_expand[OF a q False] nP by simp
      qed
      then show "bfsAfter es rootId (Suc k) =
                        Some (if n \<in> visited s then s\<lparr>queue := rest\<rparr>
                              else s\<lparr>queue := rest @ map (\<lambda>targetId. (targetId, d + 1)) (successors es n),
                                     visited := insert n (visited s),
                                     blockDistances := (blockDistances s)(n \<mapsto> d)\<rparr>)"
        using a it by (simp add: bfsAfter_def) }
  qed
  have succ: "\<forall>n m. (n, m) \<in> edgeRel es \<longleftrightarrow> m \<in> set (successors es n)"
    by (simp add: set_successors)
  from dist dom fin steps succ show ?thesis by blast
qed

lemma cycleEdges_reach: "(''s'', n) \<in> (edgeRel cycleEdges)\<^sup>* \<Longrightarrow> n = ''s'' \<or> n = ''a''"
  by (induction rule: rtrancl_induct) (auto simp: edgeRel_def cycleEdges_def)

lemma bfsAfter_cycle_2:
  "bfsAfter cycleEdges ''s'' 2 =
     Some \<lparr>queue = [(''s'', 2)], visited = {''a'', ''s''},
           blockDistances = [''s'' \<mapsto> 0, ''a'' \<mapsto> 1]\<rparr>"
  by (simp add: bfsAfter_def cycleEdges_def bfsInit_def bfsStep_def buildAdjList_def pushEdge_def
        outgoingNodeIds_def objectPrototypeKeys_def numeral_2_eq_2)

theorem bfs_cycle_safe_witness:
  "map_option (\<lambda>D. (D ''s'', D ''a'', D ''z'')) (distancesFrom cycleEdges ''s'')
     = Some (Some 0, Some 1, None)
   \<and> bfsAfter cycleEdges ''s'' 3
     = Some \<lparr>queue = [], visited = {''a'', ''s''}, blockDistances = [''s'' \<mapsto> 0, ''a'' \<mapsto> 1]\<rparr>"
proof -
  have h1: "\<forall>e \<in> set cycleEdges. source e \<notin> set objectPrototypeKeys"
    by (simp add: cycleEdges_def objectPrototypeKeys_def)
  have h2: "\<forall>n. (''s'', n) \<in> (edgeRel cycleEdges)\<^sup>* \<longrightarrow> n \<notin> set objectPrototypeKeys"
    using cycleEdges_reach by (auto simp: objectPrototypeKeys_def)
  from bfs_cycle_safe[OF h1 h2] obtain D where
    d: "distancesFrom cycleEdges ''s'' = Some D"
    and dom: "dom D = {n. (''s'', n) \<in> (edgeRel cycleEdges)\<^sup>*}"
    and steps: "\<forall>k s. bfsAfter cycleEdges ''s'' k = Some s \<longrightarrow>
                 (\<forall>n \<in> visited s. D n = blockDistances s n)
                 \<and> (\<forall>n d rest. queue s = (n, d) # rest \<longrightarrow>
                      bfsAfter cycleEdges ''s'' (Suc k) =
                        Some (if n \<in> visited s then s\<lparr>queue := rest\<rparr>
                              else s\<lparr>queue := rest @ map (\<lambda>targetId. (targetId, d + 1)) (successors cycleEdges n),
                                     visited := insert n (visited s),
                                     blockDistances := (blockDistances s)(n \<mapsto> d)\<rparr>))"
    by blast
  let ?s2 = "\<lparr>queue = [(''s'', 2)], visited = {''a'', ''s''},
              blockDistances = [''s'' \<mapsto> 0::nat, ''a'' \<mapsto> 1]\<rparr>"
  note s2 = steps[rule_format, OF bfsAfter_cycle_2]
  from s2[THEN conjunct1, rule_format, of "''s''"] have r1: "D ''s'' = Some 0" by simp
  from s2[THEN conjunct1, rule_format, of "''a''"] have r2: "D ''a'' = Some 1" by simp
  have "''z'' \<notin> {n. (''s'', n) \<in> (edgeRel cycleEdges)\<^sup>*}"
    using cycleEdges_reach[of "''z''"] by auto
  with dom have r3: "D ''z'' = None" by blast
  from s2[THEN conjunct2, rule_format, of "''s''" 2 "[]"]
  have r4: "bfsAfter cycleEdges ''s'' 3
     = Some \<lparr>queue = [], visited = {''a'', ''s''}, blockDistances = [''s'' \<mapsto> 0, ''a'' \<mapsto> 1]\<rparr>"
    by (simp add: numeral_3_eq_3)
  from d r1 r2 r3 r4 show ?thesis by simp
qed

text \<open>
  The claim as it stands has a visited block never queued again. On the cycle
  \<open>s -> a -> s\<close> the first iteration visits \<open>s\<close>, and the second, which visits \<open>a\<close>,
  queues its successor \<open>s\<close> again.
\<close>

theorem visited_node_requeued_counterexample:
  "bfsAfter cycleEdges ''s'' 1
     = Some \<lparr>queue = [(''a'', 1)], visited = {''s''}, blockDistances = [''s'' \<mapsto> 0]\<rparr>
   \<and> bfsAfter cycleEdges ''s'' 2
     = Some \<lparr>queue = [(''s'', 2)], visited = {''a'', ''s''},
             blockDistances = [''s'' \<mapsto> 0, ''a'' \<mapsto> 1]\<rparr>"
  by (simp add: bfsAfter_def cycleEdges_def bfsInit_def bfsStep_def buildAdjList_def pushEdge_def
        outgoingNodeIds_def objectPrototypeKeys_def numeral_2_eq_2)

text \<open>Two edge lists on which the computation raises, and one where the block with such a name is not reached.\<close>

lemma distancesFrom_prototype_names:
  "distancesFrom [\<lparr>source = ''constructor'', target = ''a''\<rparr>] ''s'' = None
   \<and> distancesFrom [\<lparr>source = ''s'', target = ''toString''\<rparr>] ''s'' = None
   \<and> map_option (\<lambda>D. (D ''s'', D ''toString'')) (distancesFrom [\<lparr>source = ''a'', target = ''toString''\<rparr>] ''s'')
       = Some (Some 0, None)"
  by code_simp

subsection \<open>Distances are hop counts\<close>

lemma hops_le: "(rootId, n) \<in> edgeRel es ^^ i \<Longrightarrow> hops es rootId n \<le> i"
  unfolding hops_def by (rule Least_le)

lemma hops_path: "(rootId, n) \<in> edgeRel es ^^ i \<Longrightarrow> (rootId, n) \<in> edgeRel es ^^ hops es rootId n"
  unfolding hops_def by (rule LeastI)

lemma hops_root: "hops es rootId rootId = 0"
  using hops_le[where i=0 and rootId=rootId and n=rootId and es=es] by simp

lemma hops_succ:
  assumes "(rootId, n) \<in> edgeRel es ^^ i" and "(n, m) \<in> edgeRel es"
  shows "hops es rootId m \<le> Suc (hops es rootId n)"
proof -
  from hops_path[OF assms(1)] assms(2) have "(rootId, m) \<in> edgeRel es ^^ Suc (hops es rootId n)"
    by (rule relpow_Suc_I)
  then show ?thesis by (rule hops_le)
qed

lemma bfsDistInv_init: "bfsDistInv es rootId (bfsInit rootId)"
  by (simp add: bfsDistInv_def bfsInit_def)

lemma pending_witness:
  assumes inv: "bfsDistInv es rootId s"
    and path: "(rootId, m) \<in> edgeRel es ^^ k" and nv: "m \<notin> visited s"
  shows "\<exists>x. x \<notin> visited s \<and> (x, hops es rootId x) \<in> set (queue s) \<and> hops es rootId x \<le> k"
  using path nv
proof (induction k arbitrary: m rule: less_induct)
  case (less k)
  show ?case
  proof (cases k)
    case 0
    with less.prems have m: "m = rootId" by simp
    with less.prems inv have "(rootId, 0) \<in> set (queue s)" by (auto simp: bfsDistInv_def)
    with less.prems m show ?thesis using hops_root[of es rootId] by auto
  next
    case (Suc k')
    with less.prems(1) obtain p where p: "(rootId, p) \<in> edgeRel es ^^ k'"
      and e: "(p, m) \<in> edgeRel es" by auto
    show ?thesis
    proof (cases "p \<in> visited s")
      case False
      from less.IH[of k' p] Suc p False obtain x where
        "x \<notin> visited s" "(x, hops es rootId x) \<in> set (queue s)" "hops es rootId x \<le> k'"
        by auto
      with Suc show ?thesis by (intro exI[of _ x]) simp
    next
      case True
      with inv e less.prems(2) have q: "(m, Suc (hops es rootId p)) \<in> set (queue s)"
        by (auto simp: bfsDistInv_def)
      have pk: "hops es rootId p \<le> k'" using hops_le[OF p] .
      show ?thesis
      proof (cases "hops es rootId m = Suc (hops es rootId p)")
        case T: True
        with q less.prems(2) pk Suc show ?thesis by (intro exI[of _ m]) simp
      next
        case F: False
        with hops_succ[OF p e] have lt: "hops es rootId m \<le> hops es rootId p" by simp
        have pm: "(rootId, m) \<in> edgeRel es ^^ hops es rootId m"
          using hops_path[OF less.prems(1)] .
        have "hops es rootId m < k" using lt pk Suc by simp
        from less.IH[OF this pm less.prems(2)] obtain x where
          "x \<notin> visited s" "(x, hops es rootId x) \<in> set (queue s)"
          "hops es rootId x \<le> hops es rootId m"
          by auto
        with lt pk Suc show ?thesis by (intro exI[of _ x]) simp
      qed
    qed
  qed
qed

lemma front_is_shortest:
  assumes inv: "bfsDistInv es rootId s"
    and q: "queue s = (n, d) # rest" and nv: "n \<notin> visited s"
  shows "hops es rootId n = d"
proof -
  from inv q have path: "(rootId, n) \<in> edgeRel es ^^ d" by (auto simp: bfsDistInv_def)
  then have le: "hops es rootId n \<le> d" by (rule hops_le)
  from pending_witness[OF inv hops_path[OF path] nv] obtain x where
    x: "(x, hops es rootId x) \<in> set (queue s)" "hops es rootId x \<le> hops es rootId n"
    by blast
  from inv q have "sorted (d # map snd rest)" by (simp add: bfsDistInv_def)
  with x(1) q have "d \<le> hops es rootId x" by (auto simp: image_iff)
  with x(2) le show ?thesis by simp
qed

lemma bfsDistInv_step:
  assumes adj: "buildAdjList es = Some adjList" and inv: "bfsDistInv es rootId s"
    and step: "bfsStep adjList s = Some t"
  shows "bfsDistInv es rootId t"
proof (cases "queue s")
  case Nil
  with step have "t = s" by (simp add: bfsStep_def)
  with inv show ?thesis by simp
next
  case (Cons p rest)
  obtain n d where p: "p = (n, d)" by (cases p)
  with Cons have q: "queue s = (n, d) # rest" by simp
  from inv q have
    i1: "\<forall>(x, dx) \<in> set ((n, d) # rest). (rootId, x) \<in> edgeRel es ^^ dx"
    and i2: "\<forall>v \<in> visited s. blockDistances s v = Some (hops es rootId v)
                         \<and> (\<exists>i. (rootId, v) \<in> edgeRel es ^^ i)"
    and i3: "sorted (d # map snd rest)"
    and i4: "\<forall>(x, dx) \<in> set ((n, d) # rest). dx \<le> Suc d"
    and i5: "\<forall>v \<in> visited s. \<forall>m. (v, m) \<in> edgeRel es \<longrightarrow>
           m \<in> visited s \<or> (m, Suc (hops es rootId v)) \<in> set ((n, d) # rest)"
    and i6: "rootId \<in> visited s \<or> (rootId, 0) \<in> set ((n, d) # rest)"
    by (simp_all add: bfsDistInv_def)
  have rest_ge: "\<forall>(x, dx) \<in> set rest. d \<le> dx" using i3 by auto
  have rest_le: "\<forall>(x, dx) \<in> set rest. dx \<le> Suc d" using i4 by auto
  have hd_rest: "rest \<noteq> [] \<Longrightarrow> d \<le> snd (hd rest)"
    using rest_ge by (cases rest) auto
  show ?thesis
  proof (cases "n \<in> visited s")
    case True
    then have st: "t = s\<lparr>queue := rest\<rparr>"
      using q step by (simp add: bfsStep_def)
    have 1: "\<forall>(x, dx) \<in> set rest. (rootId, x) \<in> edgeRel es ^^ dx" using i1 by auto
    have 3: "sorted (map snd rest)" using i3 by simp
    have 4: "\<forall>(x, dx) \<in> set rest. dx \<le> Suc (snd (hd rest))"
    proof (cases rest)
      case Nil
      then show ?thesis by simp
    next
      case (Cons r rs)
      then have "d \<le> snd (hd rest)" using hd_rest by simp
      with rest_le show ?thesis by fastforce
    qed
    have 5: "\<forall>v \<in> visited s. \<forall>m. (v, m) \<in> edgeRel es \<longrightarrow>
           m \<in> visited s \<or> (m, Suc (hops es rootId v)) \<in> set rest"
      using i5 True by auto
    have 6: "rootId \<in> visited s \<or> (rootId, 0) \<in> set rest" using i6 True by auto
    from 1 i2 3 4 5 6 show ?thesis unfolding st bfsDistInv_def by simp
  next
    case False
    have dn: "hops es rootId n = d" using front_is_shortest[OF inv q False] .
    have pn: "(rootId, n) \<in> edgeRel es ^^ d" using i1 by simp
    define new where "new = map (\<lambda>targetId. (targetId, d + 1)) (successors es n)"
    define s' where "s' = s\<lparr>queue := rest @ new, visited := insert n (visited s),
                 blockDistances := (blockDistances s)(n \<mapsto> d)\<rparr>"
    have st: "t = s'"
      using step bfsStep_expand[OF adj q False] by (auto simp: s'_def new_def split: if_splits)
    have new_set: "set new = (\<lambda>m. (m, Suc d)) ` {m. (n, m) \<in> edgeRel es}"
      by (simp add: new_def set_successors[symmetric])
    have qs': "queue s' = rest @ new" and vs': "visited s' = insert n (visited s)"
      and ds': "blockDistances s' = (blockDistances s)(n \<mapsto> d)"
      by (simp_all add: s'_def)
    have 1: "\<forall>(x, dx) \<in> set (rest @ new). (rootId, x) \<in> edgeRel es ^^ dx"
    proof -
      have "\<forall>(x, dx) \<in> set new. (rootId, x) \<in> edgeRel es ^^ dx"
        unfolding new_set using pn by (auto intro: relpow_Suc_I)
      with i1 show ?thesis by auto
    qed
    have 2: "\<forall>v \<in> insert n (visited s).
               ((blockDistances s)(n \<mapsto> d)) v = Some (hops es rootId v)
               \<and> (\<exists>i. (rootId, v) \<in> edgeRel es ^^ i)"
      using i2 dn pn by auto
    have 3: "sorted (map snd (rest @ new))"
    proof -
      have "map snd new = replicate (length new) (Suc d)"
        by (simp add: new_def comp_def map_replicate_const)
      then have sn: "sorted (map snd new)" by (simp add: sorted_replicate)
      have "\<forall>x \<in> set (map snd rest). \<forall>y \<in> set (map snd new). x \<le> y"
        using rest_le by (fastforce simp: new_set)
      with i3 sn show ?thesis by (simp add: sorted_append)
    qed
    have 4: "\<forall>(x, dx) \<in> set (rest @ new). dx \<le> Suc (snd (hd (rest @ new)))"
    proof (cases rest)
      case Nil
      have all: "\<forall>p \<in> set new. snd p = Suc d" by (auto simp: new_def)
      show ?thesis
      proof (cases new)
        case Nil': Nil
        with Nil show ?thesis by simp
      next
        case (Cons r rs)
        with all have "snd (hd new) = Suc d" by simp
        with all Nil show ?thesis by fastforce
      qed
    next
      case (Cons r rs)
      then have "d \<le> snd (hd (rest @ new))" using hd_rest by simp
      moreover have "\<forall>(x, dx) \<in> set (rest @ new). dx \<le> Suc d"
        using rest_le unfolding set_append new_set by auto
      ultimately show ?thesis by fastforce
    qed
    have 5: "\<forall>v \<in> insert n (visited s). \<forall>m. (v, m) \<in> edgeRel es \<longrightarrow>
           m \<in> insert n (visited s) \<or> (m, Suc (hops es rootId v)) \<in> set (rest @ new)"
    proof (intro ballI allI impI)
      fix v m assume v: "v \<in> insert n (visited s)" and e: "(v, m) \<in> edgeRel es"
      show "m \<in> insert n (visited s) \<or> (m, Suc (hops es rootId v)) \<in> set (rest @ new)"
      proof (cases "v = n")
        case True
        with e have "(m, Suc d) \<in> set new" unfolding new_set by blast
        with True dn show ?thesis by simp
      next
        case F: False
        with v have "v \<in> visited s" by simp
        with i5 e have "m \<in> visited s \<or> (m, Suc (hops es rootId v)) \<in> set ((n, d) # rest)"
          by blast
        then show ?thesis by auto
      qed
    qed
    have 6: "rootId \<in> insert n (visited s) \<or> (rootId, 0) \<in> set (rest @ new)"
      using i6 by auto
    show ?thesis unfolding st bfsDistInv_def qs' vs' ds'
      using 1 2 3 4 5 6 by (intro conjI) assumption+
  qed
qed

lemma bfsDistInv_loop:
  assumes "bfsDistInv es rootId s" and "bfsLoop es s = Some f"
  shows "bfsDistInv es rootId f"
  using assms
proof (induction es s rule: bfsLoop.induct)
  case (1 es s)
  show ?case
  proof (cases "queue s = []")
    case True
    with "1.prems" show ?thesis by (simp add: bfsLoop.simps)
  next
    case False
    with "1.prems" obtain adjList s' where a: "buildAdjList es = Some adjList"
      and st: "bfsStep adjList s = Some s'" and l: "bfsLoop es s' = Some f"
      by (subst (asm) bfsLoop.simps) (auto split: option.splits)
    from "1.IH"[OF False a st bfsDistInv_step[OF a "1.prems"(1) st] l] show ?thesis .
  qed
qed

text \<open>
  The distance recorded for a block is its hop count: the length of a path from the root
  to the block, and of no longer path than any other.
\<close>

lemma distancesFrom_shortest:
  assumes "distancesFrom es rootId = Some D" and "D n = Some d"
  shows "(rootId, n) \<in> edgeRel es ^^ d \<and> (\<forall>i. (rootId, n) \<in> edgeRel es ^^ i \<longrightarrow> d \<le> i)"
proof -
  from assms(1) obtain adjList f where a: "buildAdjList es = Some adjList"
    and l: "bfsLoop es (bfsInit rootId) = Some f" and D: "D = blockDistances f"
    by (auto simp: distancesFrom_def split: option.splits)
  have inv: "bfsDistInv es rootId f" using bfsDistInv_loop[OF bfsDistInv_init l] .
  have b: "bfsInv es rootId f" using bfsInv_loop[OF bfsInv_init l] .
  from assms(2) D have "n \<in> dom (blockDistances f)" by auto
  with b have v: "n \<in> visited f" by (simp add: bfsInv_def)
  with inv have "blockDistances f n = Some (hops es rootId n)"
    and ex: "\<exists>i. (rootId, n) \<in> edgeRel es ^^ i"
    by (auto simp: bfsDistInv_def)
  with assms(2) D have d: "d = hops es rootId n" by simp
  from ex obtain i where "(rootId, n) \<in> edgeRel es ^^ i" ..
  from hops_path[OF this] d have "(rootId, n) \<in> edgeRel es ^^ d" by simp
  moreover have "\<forall>i. (rootId, n) \<in> edgeRel es ^^ i \<longrightarrow> d \<le> i"
    using hops_le d by blast
  ultimately show ?thesis by blast
qed

subsection \<open>A block is not offered its own outputs\<close>

lemma accessibleBlockGroups_ids:
  assumes "accessibleBlockGroups env w b dists cl cp a = Some gs" and "g \<in> set gs"
  shows "blockId g = a \<and> a \<noteq> b"
  using assms
  by (auto simp: accessibleBlockGroups_def Let_def split: option.splits if_splits)

lemma collectAccessibleGroups_ids:
  assumes "collectAccessibleGroups env w b dists cl cp ids = Some gs" and "g \<in> set gs"
  shows "blockId g \<in> set ids \<and> blockId g \<noteq> b"
  using assms
proof (induction ids arbitrary: gs)
  case Nil
  then show ?case by simp
next
  case (Cons a ids)
  from Cons.prems(1) obtain gs1 gs2 where
    g1: "accessibleBlockGroups env w b dists cl cp a = Some gs1"
    and g2: "collectAccessibleGroups env w b dists cl cp ids = Some gs2"
    and gs: "gs = gs1 @ gs2"
    by (auto split: option.splits)
  from Cons.prems(2) gs consider "g \<in> set gs1" | "g \<in> set gs2" by auto
  then show ?case
  proof cases
    case 1
    with accessibleBlockGroups_ids[OF g1] show ?thesis by simp
  next
    case 2
    with Cons.IH[OF g2] show ?thesis by simp
  qed
qed

lemma set_sortByDistance: "sortByDistance dists gs = Some sortedGroups \<Longrightarrow> set sortedGroups = set gs"
  by (auto simp: sortByDistance_def Let_def split: if_splits)

text \<open>What the memo of the accessible blocks returns when it returns and no block lacks a type.\<close>

lemma accessibleTagData_parts:
  assumes "accessibleTagData env w b = Some td"
    and "\<not> (\<exists>block \<in> set (map snd (blocks w)). block_type block = [])"
  obtains dists gs sortedGroups where
    "computeBlockDistances w = Some dists"
    "collectAccessibleGroups env w b dists (fst (loopContext w b)) (fst (parallelContext w b))
       (accessibleBlockIds env b) = Some gs"
    "sortByDistance dists gs = Some sortedGroups"
    "blockTagGroups td = optionToList (snd (loopContext w b)) @ optionToList (snd (parallelContext w b))
                         @ sortedGroups"
    "allTags td = concat (map tags gs) @ variableTagsOf w
                  @ concat (map tags (optionToList (snd (loopContext w b))))
                  @ concat (map tags (optionToList (snd (parallelContext w b))))"
proof -
  obtain cl lg where l: "loopContext w b = (cl, lg)" by (cases "loopContext w b")
  obtain cp pg where p: "parallelContext w b = (cp, pg)" by (cases "parallelContext w b")
  from assms l p obtain dists gs sortedGroups where
    "computeBlockDistances w = Some dists"
    "collectAccessibleGroups env w b dists cl cp (accessibleBlockIds env b) = Some gs"
    "sortByDistance dists gs = Some sortedGroups"
    "td = \<lparr>allTags = concat (map tags gs) @ variableTagsOf w
                      @ concat (map tags (optionToList lg)) @ concat (map tags (optionToList pg)),
          blockTagGroups = optionToList lg @ optionToList pg @ sortedGroups\<rparr>"
    by (auto simp: accessibleTagData_def Let_def split: option.splits)
  with l p that show ?thesis by simp
qed

text \<open>
  C1. Whatever the scope resolver lists, the loop over the accessible blocks pushes no
  group for the requesting block itself: every group it builds belongs to another block.
  A group of the final list that carries the requesting block's own identifier can only
  be the contextual group of a loop or parallel, never a group of the block's outputs.
\<close>

theorem no_self_reference:
  "(\<forall>gs g. collectAccessibleGroups env w b dists cl cp ids = Some gs \<and> g \<in> set gs
        \<longrightarrow> blockId g \<noteq> b)
   \<and> (\<forall>td g. accessibleTagData env w b = Some td \<and> g \<in> set (blockTagGroups td) \<and> blockId g = b
        \<longrightarrow> g \<in> set (optionToList (snd (loopContext w b)) @ optionToList (snd (parallelContext w b))))"
proof (intro conjI allI impI)
  fix gs g
  assume "collectAccessibleGroups env w b dists cl cp ids = Some gs \<and> g \<in> set gs"
  then show "blockId g \<noteq> b" using collectAccessibleGroups_ids by blast
next
  fix td g
  assume a: "accessibleTagData env w b = Some td \<and> g \<in> set (blockTagGroups td) \<and> blockId g = b"
  show "g \<in> set (optionToList (snd (loopContext w b)) @ optionToList (snd (parallelContext w b)))"
  proof (cases "\<exists>block \<in> set (map snd (blocks w)). block_type block = []")
    case True
    with a show ?thesis by (auto simp: accessibleTagData_def emptyTagData_def)
  next
    case False
    from a have t: "accessibleTagData env w b = Some td" by simp
    from accessibleTagData_parts[OF t False] obtain dists gs sortedGroups where
      c: "collectAccessibleGroups env w b dists (fst (loopContext w b)) (fst (parallelContext w b))
            (accessibleBlockIds env b) = Some gs"
      and s: "sortByDistance dists gs = Some sortedGroups"
      and td: "blockTagGroups td = optionToList (snd (loopContext w b))
                 @ optionToList (snd (parallelContext w b)) @ sortedGroups"
      by blast
    have "g \<notin> set gs" using collectAccessibleGroups_ids[OF c] a by blast
    with a td set_sortByDistance[OF s] show ?thesis by auto
  qed
qed

theorem no_self_reference_witness:
  "map_option (map blockId \<circ> blockTagGroups)
     (accessibleTagData selfListingEnv (scenarioWorkflow ''forEach'') ''B'')
   = Some [''loop1'', ''starter'', ''A'']"
proof -
  let ?W = "scenarioWorkflow ''forEach''"
  let ?gs = "[\<lparr>blockName = ''A'', blockId = ''A'', blockType = ''mail'',
               tags = [''a.content'', ''a.attachments''], distance = 1\<rparr>,
             \<lparr>blockName = ''Start'', blockId = ''starter'', blockType = ''starter'',
               tags = [''start.input''], distance = 0\<rparr>]"
  have c: "collectAccessibleGroups selfListingEnv ?W ''B'' (the (computeBlockDistances ?W))
             (Some ''loop1'') None [''A'', ''B'', ''starter''] = Some ?gs"
    by code_simp
  have "\<forall>g \<in> set ?gs. blockId g \<noteq> ''B''"
    using no_self_reference[of selfListingEnv ?W "''B''" "the (computeBlockDistances ?W)"
            "Some ''loop1''" None "[''A'', ''B'', ''starter'']", THEN conjunct1] c
    by blast
  moreover have "map_option (map blockId \<circ> blockTagGroups)
     (accessibleTagData selfListingEnv ?W ''B'') = Some [''loop1'', ''starter'', ''A'']"
    by code_simp
  ultimately show ?thesis by simp
qed

subsection \<open>The root tag\<close>

lemma root_in_policy:
  "nn \<in> set (applyRootTagPolicy t nn ts) \<longleftrightarrow> t = ''generic_webhook'' \<and> (nn \<noteq> [] \<or> nn \<in> set ts)"
  by (auto simp: applyRootTagPolicy_def ensureRootTag_def Let_def)

lemma children_kept_by_policy:
  "tag \<noteq> nn \<Longrightarrow> tag \<in> set (applyRootTagPolicy t nn ts) \<longleftrightarrow> tag \<in> set ts"
  by (auto simp: applyRootTagPolicy_def ensureRootTag_def Let_def)

text \<open>
  For a block that has a configuration in the registry, in the loop over the accessible
  blocks and in the single-source mode alike, the bare normalized name is among the tags
  only if the block is a generic webhook, and it is among them whenever the block is a
  generic webhook with a non-empty normalized name.
\<close>

lemma configured_root_tag_policy:
  "(\<forall>blk cfg gs g. map_of (blocks w) a = Some blk \<and> getBlock env (block_type blk) = Some cfg
        \<and> accessibleBlockGroups env w b dists cl cp a = Some gs \<and> g \<in> set gs \<longrightarrow>
        (normalizeBlockName (blockName g) \<in> set (tags g) \<longrightarrow> blockType g = ''generic_webhook'')
        \<and> (blockType g = ''generic_webhook'' \<and> normalizeBlockName (blockName g) \<noteq> []
             \<longrightarrow> normalizeBlockName (blockName g) \<in> set (tags g)))
   \<and> (\<forall>blk cfg td g. map_of (blocks w) src = Some blk \<and> getBlock env (block_type blk) = Some cfg
        \<and> singleSourceTagData env w src = Some td \<and> g \<in> set (blockTagGroups td) \<longrightarrow>
        (normalizeBlockName (blockName g) \<in> set (tags g) \<longrightarrow> blockType g = ''generic_webhook'')
        \<and> (blockType g = ''generic_webhook'' \<and> normalizeBlockName (blockName g) \<noteq> []
             \<longrightarrow> normalizeBlockName (blockName g) \<in> set (tags g)))"
proof (intro conjI allI impI)
  fix blk cfg gs g
  assume a: "map_of (blocks w) a = Some blk \<and> getBlock env (block_type blk) = Some cfg
        \<and> accessibleBlockGroups env w b dists cl cp a = Some gs \<and> g \<in> set gs"
  then obtain ts where
    g: "g = \<lparr>blockName = nameOrType blk, blockId = a, blockType = block_type blk,
             tags = applyRootTagPolicy (block_type blk) (normalizeBlockName (nameOrType blk)) ts,
             distance = distanceOrZero dists a\<rparr>"
    by (auto simp: accessibleBlockGroups_def Let_def split: option.splits if_splits)
  { assume "normalizeBlockName (blockName g) \<in> set (tags g)"
    then show "blockType g = ''generic_webhook''" using g by (simp add: root_in_policy) }
  { assume "blockType g = ''generic_webhook'' \<and> normalizeBlockName (blockName g) \<noteq> []"
    then show "normalizeBlockName (blockName g) \<in> set (tags g)" using g by (simp add: root_in_policy) }
next
  fix blk cfg td g
  assume a: "map_of (blocks w) src = Some blk \<and> getBlock env (block_type blk) = Some cfg
        \<and> singleSourceTagData env w src = Some td \<and> g \<in> set (blockTagGroups td)"
  then obtain ts where
    g: "g = \<lparr>blockName = nameOrType blk, blockId = src, blockType = block_type blk,
             tags = applyRootTagPolicy (block_type blk) (normalizeBlockName (nameOrType blk)) ts,
             distance = 0\<rparr>"
    by (auto simp: singleSourceTagData_def Let_def split: option.splits if_splits)
  { assume "normalizeBlockName (blockName g) \<in> set (tags g)"
    then show "blockType g = ''generic_webhook''" using g by (simp add: root_in_policy) }
  { assume "blockType g = ''generic_webhook'' \<and> normalizeBlockName (blockName g) \<noteq> []"
    then show "normalizeBlockName (blockName g) \<in> set (tags g)" using g by (simp add: root_in_policy) }
qed

text \<open>
  The two branches for configured blocks on the examples: the generic webhook \<open>Web Hook\<close>
  keeps its bare name \<open>webhook\<close> in both modes, the mail block \<open>A\<close> has only its
  children in both.
\<close>

lemma configured_root_tag_examples:
  "map_option blockTagGroups (computeTagData webhookEnv webhookWorkflow ''F'' None)
     = Some [\<lparr>blockName = ''Web Hook'', blockId = ''hook'', blockType = ''generic_webhook'',
               tags = [''webhook''], distance = 0\<rparr>]
   \<and> computeTagData webhookEnv webhookWorkflow ''F'' (Some ''hook'')
     = Some \<lparr>allTags = [''webhook''],
             blockTagGroups =
               [\<lparr>blockName = ''Web Hook'', blockId = ''hook'', blockType = ''generic_webhook'',
                  tags = [''webhook''], distance = 0\<rparr>]\<rparr>
   \<and> normalizeBlockName ''Web Hook'' = ''webhook''
   \<and> computeTagData (scenarioEnv ''for'') (scenarioWorkflow ''for'') ''C'' (Some ''A'')
     = Some \<lparr>allTags = [''a.content'', ''a.attachments''],
             blockTagGroups =
               [\<lparr>blockName = ''A'', blockId = ''A'', blockType = ''mail'',
                  tags = [''a.content'', ''a.attachments''], distance = 0\<rparr>]\<rparr>
   \<and> normalizeBlockName ''A'' = ''a''"
  by code_simp

text \<open>
  C4. The claim covers every accessible block, and the code departs from it for an
  accessible loop or parallel block. Such a block has no configuration in the registry.
  In the workflow \<open>starter -> A -> loop{B} -> C\<close> the block \<open>C\<close> is offered, for the
  loop block \<open>Loop\<close>, the bare name \<open>loop\<close> next to its child \<open>loop.results\<close>:
  the branch of the loop over the accessible blocks calls \<^verbatim>\<open>ensureRootTag\<close> and does
  not filter. With the same loop block as the single source the bare name is not among
  the tags, which are \<open>loop.results\<close> alone, as for every configured block that is no
  generic webhook.
\<close>

theorem loop_root_tag_unfiltered:
  "map_option blockTagGroups
     (computeTagData (scenarioEnv ''for'') (scenarioWorkflow ''for'') ''C'' None)
   = Some [\<lparr>blockName = ''Start'', blockId = ''starter'', blockType = ''starter'',
             tags = [''start.input''], distance = 0\<rparr>,
           \<lparr>blockName = ''A'', blockId = ''A'', blockType = ''mail'',
             tags = [''a.content'', ''a.attachments''], distance = 1\<rparr>,
           \<lparr>blockName = ''Loop'', blockId = ''loop1'', blockType = ''loop'',
             tags = [''loop'', ''loop.results''], distance = 2\<rparr>]
   \<and> normalizeBlockName ''Loop'' = ''loop''
   \<and> computeTagData (scenarioEnv ''for'') (scenarioWorkflow ''for'') ''C'' (Some ''loop1'')
   = Some \<lparr>allTags = [''loop.results''],
           blockTagGroups =
             [\<lparr>blockName = ''Loop'', blockId = ''loop1'', blockType = ''loop'',
                tags = [''loop.results''], distance = 0\<rparr>]\<rparr>
   \<and> getBlock (scenarioEnv ''for'') ''loop'' = None"
  by code_simp

subsection \<open>Loop and parallel context\<close>

lemma loopContext_group:
  assumes "snd (loopContext w b) = Some g"
  shows "blockType g = ''loop'' \<and> distance g = 0
         \<and> (\<exists>loop. (blockId g, loop) \<in> set (loops w) \<and> tags g = loopContextualTags loop
               \<and> (b \<in> set (loop_nodes loop)
                    \<or> (blockId g = b \<and> (\<exists>blk. map_of (blocks w) b = Some blk \<and> block_type blk = ''loop''))))"
proof (cases "map_of (blocks w) b")
  case None
  show ?thesis
  proof (cases "find (\<lambda>(loopId, loop). b \<in> set (loop_nodes loop)) (loops w)")
    case N: None
    with None assms show ?thesis by (simp add: loopContext_def)
  next
    case (Some p)
    obtain loopId loop where p: "p = (loopId, loop)" by (cases p)
    from Some p have m: "(loopId, loop) \<in> set (loops w)" "b \<in> set (loop_nodes loop)"
      by (auto simp: find_Some_iff in_set_conv_nth)
    from None Some p assms m show ?thesis
      by (auto simp: loopContext_def split: option.splits)
  qed
next
  case (Some blk)
  show ?thesis
  proof (cases "block_type blk = ''loop'' \<and> map_of (loops w) b \<noteq> None")
    case True
    then obtain loop where l: "map_of (loops w) b = Some loop" by blast
    then have "(b, loop) \<in> set (loops w)" by (rule map_of_SomeD)
    with Some True l assms show ?thesis
      by (auto simp: loopContext_def)
  next
    case False
    then have cur: "(if (case map_of (blocks w) b of Some b' \<Rightarrow> block_type b' = ''loop'' | None \<Rightarrow> False)
                     then map_of (loops w) b else None) = None"
      using Some by auto
    show ?thesis
    proof (cases "find (\<lambda>(loopId, loop). b \<in> set (loop_nodes loop)) (loops w)")
      case None
      with cur assms show ?thesis by (simp add: loopContext_def Let_def)
    next
      case S: (Some p)
      obtain loopId loop where p: "p = (loopId, loop)" by (cases p)
      from S p have m: "(loopId, loop) \<in> set (loops w)" "b \<in> set (loop_nodes loop)"
        by (auto simp: find_Some_iff in_set_conv_nth)
      from cur S p assms m show ?thesis
        by (auto simp: loopContext_def Let_def split: option.splits)
    qed
  qed
qed

lemma parallelContext_group:
  assumes "snd (parallelContext w b) = Some g"
  shows "blockType g = ''parallel'' \<and> distance g = 0
         \<and> (\<exists>par. (blockId g, par) \<in> set (parallels w) \<and> tags g = parallelContextualTags par
               \<and> b \<in> set (parallel_nodes par))"
proof (cases "find (\<lambda>(parallelId, parallel). b \<in> set (parallel_nodes parallel)) (parallels w)")
  case None
  with assms show ?thesis by (simp add: parallelContext_def)
next
  case (Some p)
  obtain pid par where p: "p = (pid, par)" by (cases p)
  from Some p have m: "(pid, par) \<in> set (parallels w)" "b \<in> set (parallel_nodes par)"
    by (auto simp: find_Some_iff in_set_conv_nth)
  from Some p assms m show ?thesis
    by (auto simp: parallelContext_def split: option.splits)
qed

lemma loopContextualTags_members:
  "''index'' \<in> set (loopContextualTags loop) \<and> ''currentIteration'' \<in> set (loopContextualTags loop)
   \<and> (''currentItem'' \<in> set (loopContextualTags loop) \<longleftrightarrow> loopType loop = ''forEach'')
   \<and> (''items'' \<in> set (loopContextualTags loop) \<longleftrightarrow> loopType loop = ''forEach'')
   \<and> set (loopContextualTags loop) \<subseteq> {''index'', ''currentIteration'', ''currentItem'', ''items''}"
  by (auto simp: loopContextualTags_def Let_def)

lemma parallelContextualTags_members:
  "''index'' \<in> set (parallelContextualTags par)
   \<and> (''currentItem'' \<in> set (parallelContextualTags par) \<longleftrightarrow> parallelType par = ''collection'')
   \<and> (''items'' \<in> set (parallelContextualTags par) \<longleftrightarrow> parallelType par = ''collection'')
   \<and> set (parallelContextualTags par) \<subseteq> {''index'', ''currentItem'', ''items''}"
  by (auto simp: parallelContextualTags_def Let_def)

text \<open>
  A loop group is offered to a block only if the block is a member of that loop or is the
  loop block itself, and a parallel group only to a member of the parallel. A loop
  contributes \<open>index\<close> and \<open>currentIteration\<close> always, \<open>currentItem\<close> and \<open>items\<close>
  exactly when its type is \<open>forEach\<close>; a parallel contributes \<open>index\<close> always,
  \<open>currentItem\<close> and \<open>items\<close> exactly when its type is \<open>collection\<close>.
\<close>

lemma contextual_groups_scope:
  "(\<forall>g. snd (loopContext w b) = Some g \<longrightarrow>
        blockType g = ''loop''
        \<and> (\<exists>loop. (blockId g, loop) \<in> set (loops w) \<and> tags g = loopContextualTags loop
              \<and> (b \<in> set (loop_nodes loop) \<or> blockId g = b)))
   \<and> (\<forall>g. snd (parallelContext w b) = Some g \<longrightarrow>
        blockType g = ''parallel''
        \<and> (\<exists>par. (blockId g, par) \<in> set (parallels w) \<and> tags g = parallelContextualTags par
              \<and> b \<in> set (parallel_nodes par)))
   \<and> ''index'' \<in> set (loopContextualTags loop) \<and> ''currentIteration'' \<in> set (loopContextualTags loop)
   \<and> (''currentItem'' \<in> set (loopContextualTags loop) \<longleftrightarrow> loopType loop = ''forEach'')
   \<and> (''items'' \<in> set (loopContextualTags loop) \<longleftrightarrow> loopType loop = ''forEach'')
   \<and> ''index'' \<in> set (parallelContextualTags par)
   \<and> (''currentItem'' \<in> set (parallelContextualTags par) \<longleftrightarrow> parallelType par = ''collection'')
   \<and> (''items'' \<in> set (parallelContextualTags par) \<longleftrightarrow> parallelType par = ''collection'')"
proof -
  have 1: "\<forall>g. snd (loopContext w b) = Some g \<longrightarrow>
        blockType g = ''loop''
        \<and> (\<exists>loop. (blockId g, loop) \<in> set (loops w) \<and> tags g = loopContextualTags loop
              \<and> (b \<in> set (loop_nodes loop) \<or> blockId g = b))"
    using loopContext_group by blast
  have 2: "\<forall>g. snd (parallelContext w b) = Some g \<longrightarrow>
        blockType g = ''parallel''
        \<and> (\<exists>par. (blockId g, par) \<in> set (parallels w) \<and> tags g = parallelContextualTags par
              \<and> b \<in> set (parallel_nodes par))"
    using parallelContext_group by blast
  from 1 2 loopContextualTags_members[of loop] parallelContextualTags_members[of par]
  show ?thesis by blast
qed

text \<open>
  The contextual groups on the examples: the member \<open>B\<close> of the loop and the loop block
  itself are offered the loop group, the block \<open>C\<close> after the loop is not; the member
  \<open>P\<close> of the parallel is offered the parallel group, with \<open>index\<close> alone for the
  type \<open>count\<close>, and the parallel block itself is not.
\<close>

lemma contextual_groups_examples:
  "snd (loopContext (scenarioWorkflow ''forEach'') ''B'') = Some groupOfLoop
   \<and> snd (loopContext (scenarioWorkflow ''forEach'') ''loop1'') = Some groupOfLoop
   \<and> snd (loopContext (scenarioWorkflow ''forEach'') ''C'') = None
   \<and> snd (loopContext (scenarioWorkflow ''for'') ''B'')
       = Some \<lparr>blockName = ''Loop'', blockId = ''loop1'', blockType = ''loop'',
               tags = [''index'', ''currentIteration''], distance = 0\<rparr>
   \<and> snd (parallelContext (scenarioWorkflow ''forEach'') ''B'') = None
   \<and> snd (parallelContext (parallelWorkflow ''collection'') ''P'') = Some groupOfParallel
   \<and> snd (parallelContext (parallelWorkflow ''count'') ''P'')
       = Some \<lparr>blockName = ''Parallel'', blockId = ''par1'', blockType = ''parallel'',
               tags = [''index''], distance = 0\<rparr>
   \<and> snd (parallelContext (parallelWorkflow ''collection'') ''par1'') = None
   \<and> snd (parallelContext (parallelWorkflow ''collection'') ''starter'') = None
   \<and> computeTagData (parallelEnv ''collection'') (parallelWorkflow ''collection'') ''P'' None
       = Some \<lparr>allTags = [''start.input'', ''index'', ''currentItem'', ''items''],
               blockTagGroups =
                 [groupOfParallel,
                  \<lparr>blockName = ''Start'', blockId = ''starter'', blockType = ''starter'',
                    tags = [''start.input''], distance = 0\<rparr>]\<rparr>"
  by code_simp

subsection \<open>The scope resolver of the specification\<close>

text \<open>
  The accessible-prefix set modelled from the specification holds exactly the ancestors of
  the block, the block itself removed.
\<close>

lemma set_foldl_insertOnce: "set (foldl insertOnce acc xs) = set acc \<union> set xs"
  by (induction xs arbitrary: acc) (auto simp: insertOnce_def)

lemma set_upstreamStep:
  "set (upstreamStep es found) = set found \<union> {a. \<exists>m \<in> set found. (a, m) \<in> edgeRel es}"
  by (force simp: upstreamStep_def set_foldl_insertOnce edgeRel_def image_iff)

lemma set_upstream_rounds:
  "set ((upstreamStep es ^^ k) (foldl insertOnce [] (map source (filter (\<lambda>e. target e = b) es))))
     = {a. \<exists>i. 0 < i \<and> i \<le> Suc k \<and> (a, b) \<in> edgeRel es ^^ i}"
proof (induction k)
  case 0
  have "{a. \<exists>i. 0 < i \<and> i \<le> Suc 0 \<and> (a, b) \<in> edgeRel es ^^ i} = {a. (a, b) \<in> edgeRel es}"
    by (auto simp: le_Suc_eq)
  moreover have "set (map source (filter (\<lambda>e. target e = b) es)) = {a. (a, b) \<in> edgeRel es}"
    by (force simp: edgeRel_def image_iff)
  ultimately show ?case by (simp add: set_foldl_insertOnce)
next
  case (Suc k)
  let ?S = "{a. \<exists>i. 0 < i \<and> i \<le> Suc k \<and> (a, b) \<in> edgeRel es ^^ i}"
  have "{a. \<exists>i. 0 < i \<and> i \<le> Suc (Suc k) \<and> (a, b) \<in> edgeRel es ^^ i}
          = ?S \<union> {a. \<exists>m \<in> ?S. (a, m) \<in> edgeRel es}" (is "?L = ?R")
  proof (intro set_eqI iffI)
    fix a assume "a \<in> ?L"
    then obtain i where i: "0 < i" "i \<le> Suc (Suc k)" "(a, b) \<in> edgeRel es ^^ i" by blast
    show "a \<in> ?R"
    proof (cases "i \<le> Suc k")
      case True
      with i show ?thesis by blast
    next
      case False
      with i have i2: "i = Suc (Suc k)" by simp
      with i(3) obtain m where "(a, m) \<in> edgeRel es" "(m, b) \<in> edgeRel es ^^ Suc k"
        by (meson relpow_Suc_D2)
      then show ?thesis by blast
    qed
  next
    fix a assume "a \<in> ?R"
    then consider "a \<in> ?S" | m where "m \<in> ?S" "(a, m) \<in> edgeRel es" by blast
    then show "a \<in> ?L"
    proof cases
      case 1
      then show ?thesis by (auto intro: le_SucI)
    next
      case 2
      then obtain i where i: "0 < i" "i \<le> Suc k" "(m, b) \<in> edgeRel es ^^ i" by blast
      from 2(2) i(3) have "(a, b) \<in> edgeRel es ^^ Suc i" by (rule relpow_Suc_I2)
      with i show ?thesis by (intro CollectI exI[of _ "Suc i"]) simp
    qed
  qed
  with Suc show ?case by (simp add: set_upstreamStep)
qed

lemma card_edgeRel: "card (edgeRel es) \<le> length es"
proof -
  have "card (edgeRel es) \<le> card (set es)" unfolding edgeRel_def by (rule card_image_le) simp
  also have "\<dots> \<le> length es" by (rule card_length)
  finally show ?thesis .
qed

lemma accessiblePrefixesSpec_ancestors:
  "set (accessiblePrefixesSpec es b) = {a. (a, b) \<in> (edgeRel es)\<^sup>+} - {b}"
proof -
  have fin: "finite (edgeRel es)" by (simp add: edgeRel_def)
  have "{a. \<exists>i. 0 < i \<and> i \<le> Suc (length es) \<and> (a, b) \<in> edgeRel es ^^ i} = {a. (a, b) \<in> (edgeRel es)\<^sup>+}"
  proof (intro set_eqI iffI)
    fix a assume "a \<in> {a. \<exists>i. 0 < i \<and> i \<le> Suc (length es) \<and> (a, b) \<in> edgeRel es ^^ i}"
    then show "a \<in> {a. (a, b) \<in> (edgeRel es)\<^sup>+}" by (auto simp: trancl_power)
  next
    fix a assume "a \<in> {a. (a, b) \<in> (edgeRel es)\<^sup>+}"
    then have "(a, b) \<in> (\<Union>n\<in>{n. 0 < n \<and> n \<le> card (edgeRel es)}. edgeRel es ^^ n)"
      using trancl_finite_eq_relpow[OF fin] by simp
    then obtain n where "0 < n" "n \<le> card (edgeRel es)" "(a, b) \<in> edgeRel es ^^ n" by blast
    with card_edgeRel[of es] show "a \<in> {a. \<exists>i. 0 < i \<and> i \<le> Suc (length es) \<and> (a, b) \<in> edgeRel es ^^ i}"
      by (intro CollectI exI[of _ n]) simp
  qed
  then show ?thesis
    by (auto simp: accessiblePrefixesSpec_def set_upstream_rounds)
qed

text \<open>
  Whatever the scope resolver is, a group of the memo that is no contextual group belongs
  to a block the resolver lists: a block it does not list contributes no outputs.
\<close>

lemma groups_from_resolver:
  assumes "accessibleTagData env w b = Some td" and "g \<in> set (blockTagGroups td)"
  shows "g \<in> set (optionToList (snd (loopContext w b)) @ optionToList (snd (parallelContext w b)))
         \<or> blockId g \<in> set (accessibleBlockIds env b)"
proof (cases "\<exists>block \<in> set (map snd (blocks w)). block_type block = []")
  case True
  with assms show ?thesis by (auto simp: accessibleTagData_def emptyTagData_def)
next
  case False
  from accessibleTagData_parts[OF assms(1) False] obtain dists gs sortedGroups where
    c: "collectAccessibleGroups env w b dists (fst (loopContext w b)) (fst (parallelContext w b))
          (accessibleBlockIds env b) = Some gs"
    and s: "sortByDistance dists gs = Some sortedGroups"
    and td: "blockTagGroups td = optionToList (snd (loopContext w b))
               @ optionToList (snd (parallelContext w b)) @ sortedGroups"
    by blast
  from assms(2) td set_sortByDistance[OF s]
  consider "g \<in> set (optionToList (snd (loopContext w b)) @ optionToList (snd (parallelContext w b)))"
    | "g \<in> set gs" by auto
  then show ?thesis
  proof cases
    case 1
    then show ?thesis by simp
  next
    case 2
    with collectAccessibleGroups_ids[OF c] show ?thesis by blast
  qed
qed

text \<open>
  The scenario \<open>starter -> A -> loop{B} -> C\<close> with the scope resolver of the
  specification: \<open>B\<close> is offered the loop group, the outputs of the start block and of
  \<open>A\<close>, and nothing of \<open>C\<close>, which is no ancestor of \<open>B\<close>.
\<close>

lemma scenario_tags_of_B:
  "computeTagData (scenarioEnv ''forEach'') (scenarioWorkflow ''forEach'') ''B'' None =
       Some \<lparr>allTags = [''a.content'', ''a.attachments'', ''start.input'', ''variable.apikey'',
                        ''index'', ''currentIteration'', ''currentItem'', ''items''],
             blockTagGroups =
               [\<lparr>blockName = ''Loop'', blockId = ''loop1'', blockType = ''loop'',
                  tags = [''index'', ''currentIteration'', ''currentItem'', ''items''], distance = 0\<rparr>,
                \<lparr>blockName = ''Start'', blockId = ''starter'', blockType = ''starter'',
                  tags = [''start.input''], distance = 0\<rparr>,
                \<lparr>blockName = ''A'', blockId = ''A'', blockType = ''mail'',
                  tags = [''a.content'', ''a.attachments''], distance = 1\<rparr>]\<rparr>
   \<and> computeTagData (scenarioEnv ''for'') (scenarioWorkflow ''for'') ''B'' None =
       Some \<lparr>allTags = [''a.content'', ''a.attachments'', ''start.input'', ''variable.apikey'',
                        ''index'', ''currentIteration''],
             blockTagGroups =
               [\<lparr>blockName = ''Loop'', blockId = ''loop1'', blockType = ''loop'',
                  tags = [''index'', ''currentIteration''], distance = 0\<rparr>,
                \<lparr>blockName = ''Start'', blockId = ''starter'', blockType = ''starter'',
                  tags = [''start.input''], distance = 0\<rparr>,
                \<lparr>blockName = ''A'', blockId = ''A'', blockType = ''mail'',
                  tags = [''a.content'', ''a.attachments''], distance = 1\<rparr>]\<rparr>
   \<and> accessibleBlockIds (scenarioEnv ''forEach'') ''B'' = [''loop1'', ''A'', ''starter'']
   \<and> (''C'', ''B'') \<notin> (edgeRel (edges (scenarioWorkflow ''forEach'')))\<^sup>+"
proof -
  have 1: "computeTagData (scenarioEnv ''forEach'') (scenarioWorkflow ''forEach'') ''B'' None =
       Some \<lparr>allTags = [''a.content'', ''a.attachments'', ''start.input'', ''variable.apikey'',
                        ''index'', ''currentIteration'', ''currentItem'', ''items''],
             blockTagGroups =
               [\<lparr>blockName = ''Loop'', blockId = ''loop1'', blockType = ''loop'',
                  tags = [''index'', ''currentIteration'', ''currentItem'', ''items''], distance = 0\<rparr>,
                \<lparr>blockName = ''Start'', blockId = ''starter'', blockType = ''starter'',
                  tags = [''start.input''], distance = 0\<rparr>,
                \<lparr>blockName = ''A'', blockId = ''A'', blockType = ''mail'',
                  tags = [''a.content'', ''a.attachments''], distance = 1\<rparr>]\<rparr>"
    by code_simp
  have 2: "computeTagData (scenarioEnv ''for'') (scenarioWorkflow ''for'') ''B'' None =
       Some \<lparr>allTags = [''a.content'', ''a.attachments'', ''start.input'', ''variable.apikey'',
                        ''index'', ''currentIteration''],
             blockTagGroups =
               [\<lparr>blockName = ''Loop'', blockId = ''loop1'', blockType = ''loop'',
                  tags = [''index'', ''currentIteration''], distance = 0\<rparr>,
                \<lparr>blockName = ''Start'', blockId = ''starter'', blockType = ''starter'',
                  tags = [''start.input''], distance = 0\<rparr>,
                \<lparr>blockName = ''A'', blockId = ''A'', blockType = ''mail'',
                  tags = [''a.content'', ''a.attachments''], distance = 1\<rparr>]\<rparr>"
    by code_simp
  have 3: "accessibleBlockIds (scenarioEnv ''forEach'') ''B'' = [''loop1'', ''A'', ''starter'']"
    by code_simp
  have "useAccessibleReferencePrefixes (scenarioEnv ''forEach'') ''B''
          = Some (accessiblePrefixesSpec (edges (scenarioWorkflow ''forEach'')) ''B'')"
    by (simp add: scenarioEnv_def)
  moreover have "accessiblePrefixesSpec (edges (scenarioWorkflow ''forEach'')) ''B''
                   = [''loop1'', ''A'', ''starter'']"
    by code_simp
  ultimately have "''C'' \<notin> set (accessiblePrefixesSpec (edges (scenarioWorkflow ''forEach'')) ''B'')"
    by simp
  then have 4: "(''C'', ''B'') \<notin> (edgeRel (edges (scenarioWorkflow ''forEach'')))\<^sup>+"
    by (simp add: accessiblePrefixesSpec_ancestors)
  from 1 2 3 4 show ?thesis by blast
qed

text \<open>
  C8. In the scenario the block \<open>B\<close> is offered the contextual tags \<open>index\<close>,
  \<open>currentIteration\<close>, \<open>currentItem\<close> and \<open>items\<close> in the group of the loop.
  Selecting one of them inserts it with the prefix \<open>loop.\<close>, as the claim has it:
  \<open>loop.index\<close>, \<open>loop.currentItem\<close>, \<open>loop.items\<close>. The code departs from the
  claim for \<open>currentIteration\<close>: the list of contextual tags that the selection handler
  prefixes names the other three and misses it, so it is inserted bare, and no tag
  \<open>loop.currentIteration\<close> is offered or inserted.
\<close>

theorem currentIteration_inserted_bare:
  "map_option (\<lambda>td. (allTags td, hd (blockTagGroups td)))
     (computeTagData (scenarioEnv ''forEach'') (scenarioWorkflow ''forEach'') ''B'' None)
     = Some ([''a.content'', ''a.attachments'', ''start.input'', ''variable.apikey'',
              ''index'', ''currentIteration'', ''currentItem'', ''items''], groupOfLoop)
   \<and> handleTagSelect (scenarioEnv ''forEach'') (scenarioWorkflow ''forEach'') ''<'' 1
        ''index'' (Some groupOfLoop) = Selected ''<loop.index>''
   \<and> handleTagSelect (scenarioEnv ''forEach'') (scenarioWorkflow ''forEach'') ''<'' 1
        ''currentItem'' (Some groupOfLoop) = Selected ''<loop.currentItem>''
   \<and> handleTagSelect (scenarioEnv ''forEach'') (scenarioWorkflow ''forEach'') ''<'' 1
        ''items'' (Some groupOfLoop) = Selected ''<loop.items>''
   \<and> handleTagSelect (scenarioEnv ''forEach'') (scenarioWorkflow ''forEach'') ''<'' 1
        ''currentIteration'' (Some groupOfLoop) = Selected ''<currentIteration>''"
  by code_simp

subsection \<open>Closer blocks come first\<close>






















text \<open>
  Nesting raises on a tag whose second segment names a member of \<^verbatim>\<open>Object.prototype\<close>,
  so that there is no flat list; other segments are grouped under their parent, which the
  flat list shows by its first child.
\<close>

lemma nesting_prototype_names:
  "orderedTagsOf \<lparr>allTags = [''a.constructor.x''],
                  blockTagGroups = [\<lparr>blockName = ''A'', blockId = ''A'', blockType = ''mail'',
                                     tags = [''a.constructor.x''], distance = 1\<rparr>]\<rparr> [] = None
   \<and> orderedTagsOf \<lparr>allTags = [''a.toString.x''],
                    blockTagGroups = [\<lparr>blockName = ''A'', blockId = ''A'', blockType = ''mail'',
                                       tags = [''a.toString.x''], distance = 1\<rparr>]\<rparr> [] = None
   \<and> orderedTagsOf \<lparr>allTags = [''a.body.x'', ''a.body.y'', ''a.toString''],
                    blockTagGroups = [\<lparr>blockName = ''A'', blockId = ''A'', blockType = ''mail'',
                                       tags = [''a.body.x'', ''a.body.y'', ''a.toString''],
                                       distance = 1\<rparr>]\<rparr> []
       = Some [''a.body.x'', ''a.toString'']"
  by code_simp

end
